theory Spec2Isabelle
  imports Main "HOL-Library.Word"
begin

unbundle bit_operations_syntax

section \<open>The PrivateQA ledger contract\<close>

text \<open>
  The contract \<^verbatim>\<open>PrivateQA\<close> is written for Solidity 0.8.24. Its integers are
  256-bit unsigned words whose \<^verbatim>\<open>+\<close> and \<^verbatim>\<open>++\<close> are checked: an overflow
  aborts the call with \<^verbatim>\<open>Panic(0x11)\<close>. Mappings are total and hold the zero value of
  their value type at every key that was never written. A failed \<^verbatim>\<open>require\<close>, a panic
  and a revert inside an external call all abort the call, and an aborted call leaves the
  storage as it was before the call.
\<close>

subsection \<open>Data\<close>

type_synonym uint256 = "256 word"
type_synonym address = "160 word"
type_synonym euint128 = "256 word"
type_synonym externalEuint128 = "256 word"
type_synonym bytes = "8 word list"

record Session =
  id_Session :: uint256
  host :: address
  topic :: string
  description :: string
  createdAt :: uint256
  expiresAt :: uint256
  isActive :: bool
  questionCount :: uint256
  answeredCount :: uint256

record Question =
  id_Question :: uint256
  sessionId :: uint256
  asker :: address
  timestamp :: uint256
  isAnswered :: bool

datatype event =
  SessionCreated uint256 address string uint256
| QuestionSubmitted uint256 uint256 address uint256
| QuestionAnswered uint256 uint256
| SessionClosed uint256

text \<open>
  The storage of the contract. The contract-level counter \<^verbatim>\<open>questionCount\<close> is
  \<open>questionCount_total\<close> here, since the \<^verbatim>\<open>Session\<close> struct has a field of the same
  name. The log of emitted events is part of the state, and so is the access-control list
  of the encryption engine.

  Modelled from the spec: the permission primitives of the engine, \<^verbatim>\<open>FHE.allow\<close> and
  \<^verbatim>\<open>FHE.allowThis\<close>, whose code is not in the repository. \<^verbatim>\<open>allow(ciphertext, address)\<close>
  grants the address permission to decrypt the handle later, \<^verbatim>\<open>allowThis(ciphertext)\<close>
  grants it to the contract itself; here each adds its pair of handle and address to
  \<open>acl\<close>.
\<close>

record PrivateQA =
  sessions :: "uint256 \<Rightarrow> Session"
  questions :: "uint256 \<Rightarrow> Question"
  encryptedQuestions :: "uint256 \<Rightarrow> euint128"
  encryptedAnswers :: "uint256 \<Rightarrow> euint128"
  sessionQuestions :: "uint256 \<Rightarrow> uint256 list"
  hostSessions :: "address \<Rightarrow> uint256 list"
  userQuestions :: "address \<Rightarrow> uint256 list"
  sessionCount :: uint256
  questionCount_total :: uint256
  acl :: "(euint128 \<times> address) set"
  events :: "event list"

text \<open>
  What a call sees of its transaction: the caller, the value sent along with the call, the
  block time, the contract's own address, and the engine's conversion of an external
  ciphertext with its input proof into a handle. The engine is not part of the contract;
  its conversion is a parameter, and \<open>None\<close> stands for the engine reverting.
\<close>

record env =
  msg_sender :: address
  msg_value :: uint256
  block_timestamp :: uint256
  this :: address
  fromExternal :: "externalEuint128 \<Rightarrow> bytes \<Rightarrow> euint128 option"

text \<open>
  The ways a call aborts: a failed \<^verbatim>\<open>require\<close> with its message, an arithmetic overflow,
  a revert inside the engine, and value sent to a function that is not \<^verbatim>\<open>payable\<close>.
\<close>

datatype error = Require string | Panic_overflow | Engine_revert | Non_payable

text \<open>
  A call either aborts, with the error and the storage as it stood where the call aborted,
  or returns a value and the new storage.
\<close>

type_synonym 'a outcome = "(error \<times> PrivateQA) + ('a \<times> PrivateQA)"

definition zero_Session :: Session where
  "zero_Session = \<lparr>id_Session = 0, host = 0, topic = [], description = [], createdAt = 0,
     expiresAt = 0, isActive = False, questionCount = 0, answeredCount = 0\<rparr>"

definition zero_Question :: Question where
  "zero_Question = \<lparr>id_Question = 0, sessionId = 0, asker = 0, timestamp = 0,
     isAnswered = False\<rparr>"

definition deployed :: PrivateQA where
  "deployed = \<lparr>sessions = (\<lambda>_. zero_Session), questions = (\<lambda>_. zero_Question),
     encryptedQuestions = (\<lambda>_. 0), encryptedAnswers = (\<lambda>_. 0),
     sessionQuestions = (\<lambda>_. []), hostSessions = (\<lambda>_. []), userQuestions = (\<lambda>_. []),
     sessionCount = 0, questionCount_total = 0, acl = {}, events = []\<rparr>"

subsection \<open>Checked arithmetic\<close>

definition checked_add :: "uint256 \<Rightarrow> uint256 \<Rightarrow> uint256 option" where
  "checked_add a b = (if unat a + unat b < 2 ^ 256 then Some (a + b) else None)"

definition checked_inc :: "uint256 \<Rightarrow> uint256 option" where
  "checked_inc a = (if a = - 1 then None else Some (a + 1))"

subsection \<open>Calls that carry value\<close>

text \<open>
  No function of the contract is declared \<^verbatim>\<open>payable\<close>. A call that carries value
  therefore reverts at the entry of the function, before any modifier and before the body,
  and with the storage untouched.
\<close>

definition nonpayable :: "env \<Rightarrow> PrivateQA \<Rightarrow> 'a outcome \<Rightarrow> 'a outcome" where
  "nonpayable e s r = (if msg_value e \<noteq> 0 then Inl (Non_payable, s) else r)"

subsection \<open>Modifiers\<close>

text \<open>A modifier yields the error of its first failing \<^verbatim>\<open>require\<close>, if any.\<close>

definition onlyHost :: "env \<Rightarrow> uint256 \<Rightarrow> PrivateQA \<Rightarrow> error option" where
  "onlyHost e sid s =
     (if host (sessions s sid) = msg_sender e then None
      else Some (Require ''Not session host''))"

definition sessionExists :: "uint256 \<Rightarrow> PrivateQA \<Rightarrow> error option" where
  "sessionExists sid s =
     (if sid > 0 \<and> sid \<le> sessionCount s then None
      else Some (Require ''Session does not exist''))"

definition sessionActive :: "env \<Rightarrow> uint256 \<Rightarrow> PrivateQA \<Rightarrow> error option" where
  "sessionActive e sid s =
     (if \<not> isActive (sessions s sid) then Some (Require ''Session not active'')
      else if \<not> block_timestamp e < expiresAt (sessions s sid)
        then Some (Require ''Session expired'')
      else None)"

subsection \<open>Operations\<close>

text \<open>
  \<^verbatim>\<open>createSession\<close> and \<^verbatim>\<open>submitQuestion\<close> begin with the check of the call value. The
  other four state-changing functions are given by their modifiers and bodies, and the check
  of the call value is made where their calls are dispatched, in \<open>body\<close> below. The two
  \<^verbatim>\<open>view\<close> functions are read without value.
\<close>

definition createSession ::
  "env \<Rightarrow> string \<Rightarrow> string \<Rightarrow> uint256 \<Rightarrow> PrivateQA \<Rightarrow> uint256 outcome" where
  "createSession e tpc dsc duration s =
     (if msg_value e \<noteq> 0 then Inl (Non_payable, s)
      else if \<not> length tpc > 0 then Inl (Require ''Topic cannot be empty'', s)
      else if \<not> duration > 0 then Inl (Require ''Duration must be positive'', s)
      else (case checked_inc (sessionCount s) of
        None \<Rightarrow> Inl (Panic_overflow, s)
      | Some n \<Rightarrow>
          let s1 = s\<lparr>sessionCount := n\<rparr> in
          (case checked_add (block_timestamp e) duration of
            None \<Rightarrow> Inl (Panic_overflow, s1)
          | Some expires \<Rightarrow>
              let s2 = s1\<lparr>sessions := (sessions s1)(sessionCount s1 :=
                         \<lparr>id_Session = sessionCount s1, host = msg_sender e, topic = tpc,
                          description = dsc, createdAt = block_timestamp e,
                          expiresAt = expires, isActive = True, questionCount = 0,
                          answeredCount = 0\<rparr>)\<rparr>;
                  s3 = s2\<lparr>hostSessions := (hostSessions s2)(msg_sender e :=
                         hostSessions s2 (msg_sender e) @ [sessionCount s2])\<rparr>;
                  s4 = s3\<lparr>events := events s3 @
                         [SessionCreated (sessionCount s3) (msg_sender e) tpc expires]\<rparr>
              in Inr (sessionCount s4, s4))))"

definition submitQuestion ::
  "env \<Rightarrow> uint256 \<Rightarrow> externalEuint128 \<Rightarrow> bytes \<Rightarrow> PrivateQA \<Rightarrow> uint256 outcome" where
  "submitQuestion e sid encryptedQuestion inputProof s =
     (if msg_value e \<noteq> 0 then Inl (Non_payable, s) else
     (case sessionExists sid s of Some err \<Rightarrow> Inl (err, s) | None \<Rightarrow>
     (case sessionActive e sid s of Some err \<Rightarrow> Inl (err, s) | None \<Rightarrow>
     (case checked_inc (questionCount_total s) of
        None \<Rightarrow> Inl (Panic_overflow, s)
      | Some n \<Rightarrow>
          let s1 = s\<lparr>questionCount_total := n\<rparr> in
          (case fromExternal e encryptedQuestion inputProof of
            None \<Rightarrow> Inl (Engine_revert, s1)
          | Some question \<Rightarrow>
              let s2 = s1\<lparr>encryptedQuestions :=
                         (encryptedQuestions s1)(questionCount_total s1 := question)\<rparr>;
                  s3 = s2\<lparr>acl := insert (question, this e) (acl s2)\<rparr>;
                  s4 = s3\<lparr>acl := insert (question, host (sessions s3 sid)) (acl s3)\<rparr>;
                  s5 = s4\<lparr>questions := (questions s4)(questionCount_total s4 :=
                         \<lparr>id_Question = questionCount_total s4, sessionId = sid,
                          asker = msg_sender e, timestamp = block_timestamp e,
                          isAnswered = False\<rparr>)\<rparr>;
                  s6 = s5\<lparr>sessionQuestions := (sessionQuestions s5)(sid :=
                         sessionQuestions s5 sid @ [questionCount_total s5])\<rparr>;
                  s7 = s6\<lparr>userQuestions := (userQuestions s6)(msg_sender e :=
                         userQuestions s6 (msg_sender e) @ [questionCount_total s6])\<rparr>
              in (case checked_inc (questionCount (sessions s7 sid)) of
                   None \<Rightarrow> Inl (Panic_overflow, s7)
                 | Some m \<Rightarrow>
                     let s8 = s7\<lparr>sessions := (sessions s7)(sid :=
                                (sessions s7 sid)\<lparr>questionCount := m\<rparr>)\<rparr>;
                         s9 = s8\<lparr>events := events s8 @
                                [QuestionSubmitted (questionCount_total s8) sid (msg_sender e)
                                   (block_timestamp e)]\<rparr>
                     in Inr (questionCount_total s9, s9)))))))"

definition requestQuestionAccess :: "env \<Rightarrow> uint256 \<Rightarrow> PrivateQA \<Rightarrow> unit outcome" where
  "requestQuestionAccess e qid s =
     (if \<not> (qid > 0 \<and> qid \<le> questionCount_total s)
        then Inl (Require ''Invalid question ID'', s)
      else let sid = sessionId (questions s qid) in
        if \<not> host (sessions s sid) = msg_sender e then Inl (Require ''Not session host'', s)
        else Inr ((), s\<lparr>acl := insert (encryptedQuestions s qid, msg_sender e) (acl s)\<rparr>))"

definition getEncryptedQuestion :: "env \<Rightarrow> uint256 \<Rightarrow> PrivateQA \<Rightarrow> error + euint128" where
  "getEncryptedQuestion e qid s =
     (if \<not> (qid > 0 \<and> qid \<le> questionCount_total s) then Inl (Require ''Invalid question ID'')
      else let sid = sessionId (questions s qid) in
        if \<not> host (sessions s sid) = msg_sender e then Inl (Require ''Not session host'')
        else Inr (encryptedQuestions s qid))"

definition answerQuestion ::
  "env \<Rightarrow> uint256 \<Rightarrow> externalEuint128 \<Rightarrow> bytes \<Rightarrow> PrivateQA \<Rightarrow> unit outcome" where
  "answerQuestion e qid encryptedAnswer inputProof s =
     (if \<not> (qid > 0 \<and> qid \<le> questionCount_total s)
        then Inl (Require ''Invalid question ID'', s)
      else let sid = sessionId (questions s qid) in
        if \<not> host (sessions s sid) = msg_sender e then Inl (Require ''Not session host'', s)
        else if \<not> \<not> isAnswered (questions s qid) then Inl (Require ''Already answered'', s)
        else (case fromExternal e encryptedAnswer inputProof of
          None \<Rightarrow> Inl (Engine_revert, s)
        | Some answer \<Rightarrow>
            let s1 = s\<lparr>encryptedAnswers := (encryptedAnswers s)(qid := answer)\<rparr>;
                s2 = s1\<lparr>acl := insert (answer, this e) (acl s1)\<rparr>;
                s3 = s2\<lparr>acl := insert (answer, asker (questions s2 qid)) (acl s2)\<rparr>;
                s4 = s3\<lparr>questions := (questions s3)(qid :=
                       (questions s3 qid)\<lparr>isAnswered := True\<rparr>)\<rparr>
            in (case checked_inc (answeredCount (sessions s4 sid)) of
                 None \<Rightarrow> Inl (Panic_overflow, s4)
               | Some m \<Rightarrow>
                   let s5 = s4\<lparr>sessions := (sessions s4)(sid :=
                              (sessions s4 sid)\<lparr>answeredCount := m\<rparr>)\<rparr>;
                       s6 = s5\<lparr>events := events s5 @ [QuestionAnswered qid sid]\<rparr>
                   in Inr ((), s6))))"

definition requestAnswerAccess :: "env \<Rightarrow> uint256 \<Rightarrow> PrivateQA \<Rightarrow> unit outcome" where
  "requestAnswerAccess e qid s =
     (if \<not> (qid > 0 \<and> qid \<le> questionCount_total s)
        then Inl (Require ''Invalid question ID'', s)
      else if \<not> asker (questions s qid) = msg_sender e
        then Inl (Require ''Not question asker'', s)
      else if \<not> isAnswered (questions s qid)
        then Inl (Require ''Question not answered yet'', s)
      else Inr ((), s\<lparr>acl := insert (encryptedAnswers s qid, msg_sender e) (acl s)\<rparr>))"

definition getEncryptedAnswer :: "env \<Rightarrow> uint256 \<Rightarrow> PrivateQA \<Rightarrow> error + euint128" where
  "getEncryptedAnswer e qid s =
     (if \<not> (qid > 0 \<and> qid \<le> questionCount_total s) then Inl (Require ''Invalid question ID'')
      else if \<not> asker (questions s qid) = msg_sender e then Inl (Require ''Not question asker'')
      else if \<not> isAnswered (questions s qid) then Inl (Require ''Question not answered yet'')
      else Inr (encryptedAnswers s qid))"

definition closeSession :: "env \<Rightarrow> uint256 \<Rightarrow> PrivateQA \<Rightarrow> unit outcome" where
  "closeSession e sid s =
     (case sessionExists sid s of Some err \<Rightarrow> Inl (err, s) | None \<Rightarrow>
     (case onlyHost e sid s of Some err \<Rightarrow> Inl (err, s) | None \<Rightarrow>
      if \<not> isActive (sessions s sid) then Inl (Require ''Session already closed'', s)
      else
        let s1 = s\<lparr>sessions := (sessions s)(sid := (sessions s sid)\<lparr>isActive := False\<rparr>)\<rparr>;
            s2 = s1\<lparr>events := events s1 @ [SessionClosed sid]\<rparr>
        in Inr ((), s2)))"

subsection \<open>Transactions and runs\<close>

datatype call =
  CreateSession string string uint256
| SubmitQuestion uint256 externalEuint128 bytes
| RequestQuestionAccess uint256
| AnswerQuestion uint256 externalEuint128 bytes
| RequestAnswerAccess uint256
| CloseSession uint256

datatype retval = Id uint256 | Done

fun retId :: "uint256 outcome \<Rightarrow> retval outcome" where
  "retId (Inl x) = Inl x"
| "retId (Inr (n, s)) = Inr (Id n, s)"

fun retDone :: "unit outcome \<Rightarrow> retval outcome" where
  "retDone (Inl x) = Inl x"
| "retDone (Inr (u, s)) = Inr (Done, s)"

fun body :: "env \<Rightarrow> call \<Rightarrow> PrivateQA \<Rightarrow> retval outcome" where
  "body e (CreateSession tpc dsc duration) s = retId (createSession e tpc dsc duration s)"
| "body e (SubmitQuestion sid enc pf) s = retId (submitQuestion e sid enc pf s)"
| "body e (RequestQuestionAccess qid) s =
     retDone (nonpayable e s (requestQuestionAccess e qid s))"
| "body e (AnswerQuestion qid enc pf) s =
     retDone (nonpayable e s (answerQuestion e qid enc pf s))"
| "body e (RequestAnswerAccess qid) s =
     retDone (nonpayable e s (requestAnswerAccess e qid s))"
| "body e (CloseSession sid) s = retDone (nonpayable e s (closeSession e sid s))"

text \<open>
  A transaction runs the call, from the check of its value to the end of the function;
  when the call aborts, the storage is rolled back to what it was before the call.
\<close>

definition transact :: "env \<Rightarrow> call \<Rightarrow> PrivateQA \<Rightarrow> (error + retval) \<times> PrivateQA" where
  "transact e c s =
     (case body e c s of Inl (err, _) \<Rightarrow> (Inl err, s) | Inr (r, s') \<Rightarrow> (Inr r, s'))"

definition rejected :: "env \<Rightarrow> call \<Rightarrow> PrivateQA \<Rightarrow> bool" where
  "rejected e c s = isl (fst (transact e c s))"

definition state_after :: "env \<Rightarrow> call \<Rightarrow> PrivateQA \<Rightarrow> PrivateQA" where
  "state_after e c s = snd (transact e c s)"

fun run :: "(env \<times> call) list \<Rightarrow> PrivateQA \<Rightarrow> PrivateQA" where
  "run [] s = s"
| "run ((e, c) # cs) s = run cs (state_after e c s)"

text \<open>
  The ledgers that can arise are those of \<open>run cs deployed\<close>: the contract as deployed,
  after any transactions, by any callers, at any block times.
\<close>

subsection \<open>Invariants\<close>

definition valid_question :: "PrivateQA \<Rightarrow> uint256 \<Rightarrow> bool" where
  "valid_question s q \<longleftrightarrow> 0 < q \<and> q \<le> questionCount_total s"

definition valid_session :: "PrivateQA \<Rightarrow> uint256 \<Rightarrow> bool" where
  "valid_session s sid \<longleftrightarrow> 0 < sid \<and> sid \<le> sessionCount s"

definition answered_in :: "PrivateQA \<Rightarrow> uint256 \<Rightarrow> uint256 list" where
  "answered_in s sid = filter (\<lambda>q. isAnswered (questions s q)) (sessionQuestions s sid)"

definition ledger_inv :: "PrivateQA \<Rightarrow> bool" where
  "ledger_inv s \<longleftrightarrow>
     (\<forall>q. valid_question s q \<longrightarrow> valid_session s (sessionId (questions s q))) \<and>
     (\<forall>sid. set (sessionQuestions s sid) =
        {q. valid_question s q \<and> sessionId (questions s q) = sid}) \<and>
     (\<forall>sid. distinct (sessionQuestions s sid)) \<and>
     (\<forall>sid. valid_session s sid \<longrightarrow>
        unat (questionCount (sessions s sid)) = length (sessionQuestions s sid) \<and>
        unat (answeredCount (sessions s sid)) = length (answered_in s sid))"

definition counts_ok :: "PrivateQA \<Rightarrow> bool" where
  "counts_ok s \<longleftrightarrow>
     (\<forall>sid. 0 < sid \<and> sid \<le> sessionCount s \<longrightarrow>
        answeredCount (sessions s sid) \<le> questionCount (sessions s sid) \<and>
        length (sessionQuestions s sid) = unat (questionCount (sessions s sid)))"

subsection \<open>A concrete run\<close>

text \<open>
  Alice opens a session at time 1000 for 3600 seconds, Bob submits a question, Alice answers
  it. No call of this run carries value, and its engine hands back the external ciphertext
  as the handle.
\<close>

definition accepting :: "externalEuint128 \<Rightarrow> bytes \<Rightarrow> euint128 option" where
  "accepting h p = Some h"

definition env_of :: "address \<Rightarrow> uint256 \<Rightarrow> env" where
  "env_of a t = \<lparr>msg_sender = a, msg_value = 0, block_timestamp = t, this = 255,
     fromExternal = accepting\<rparr>"

text \<open>An engine that rejects every input.\<close>

definition rejecting :: "externalEuint128 \<Rightarrow> bytes \<Rightarrow> euint128 option" where
  "rejecting h p = None"

definition alice :: address where "alice = 10"
definition bob :: address where "bob = 20"

definition state1 :: PrivateQA where
  "state1 = state_after (env_of alice 1000) (CreateSession ''AMA'' ''desc'' 3600) deployed"
definition state2 :: PrivateQA where
  "state2 = state_after (env_of bob 1001) (SubmitQuestion 1 77 []) state1"
definition state3 :: PrivateQA where
  "state3 = state_after (env_of alice 1002) (AnswerQuestion 1 88 []) state2"

definition scenario :: "(env \<times> call) list" where
  "scenario = [(env_of alice 1000, CreateSession ''AMA'' ''desc'' 3600),
               (env_of bob 1001, SubmitQuestion 1 77 []),
               (env_of alice 1002, AnswerQuestion 1 88 [])]"

definition session1 :: Session where
  "session1 = \<lparr>id_Session = 1, host = alice, topic = ''AMA'', description = ''desc'',
     createdAt = 1000, expiresAt = 4600, isActive = True, questionCount = 0,
     answeredCount = 0\<rparr>"

definition question1 :: Question where
  "question1 = \<lparr>id_Question = 1, sessionId = 1, asker = bob, timestamp = 1001,
     isAnswered = False\<rparr>"

section \<open>The text encoding of the client\<close>

text \<open>
  A JavaScript string is a sequence of 16-bit code units, and \<^verbatim>\<open>length\<close> counts code
  units. \<^verbatim>\<open>TextEncoder\<close> and \<^verbatim>\<open>TextDecoder\<close> are built into the platform; what they
  compute is fixed by the Encoding standard: the encoder reads the string as scalar values,
  an unpaired surrogate as U+FFFD, and writes UTF-8; the decoder, with its default options,
  drops a leading byte order mark, decodes UTF-8 and writes U+FFFD for every malformed
  part. The shifts and masks of the standard are written as multiplications, divisions and
  remainders by powers of two.
\<close>

type_synonym js_string = "16 word list"
type_synonym Uint8Array = "8 word list"

datatype js_error = Error string

definition is_lead_surrogate :: "16 word \<Rightarrow> bool" where
  "is_lead_surrogate u \<longleftrightarrow> 0xD800 \<le> u \<and> u \<le> 0xDBFF"

definition is_trail_surrogate :: "16 word \<Rightarrow> bool" where
  "is_trail_surrogate u \<longleftrightarrow> 0xDC00 \<le> u \<and> u \<le> 0xDFFF"

definition lone_code_unit :: "16 word \<Rightarrow> nat" where
  "lone_code_unit u =
     (if is_lead_surrogate u \<or> is_trail_surrogate u then 0xFFFD else unat u)"

fun scalar_values :: "js_string \<Rightarrow> nat list" where
  "scalar_values [] = []"
| "scalar_values [u] = [lone_code_unit u]"
| "scalar_values (u # v # vs) =
     (if is_lead_surrogate u \<and> is_trail_surrogate v
        then (0x10000 + (unat u - 0xD800) * 0x400 + (unat v - 0xDC00)) # scalar_values vs
      else lone_code_unit u # scalar_values (v # vs))"

definition utf8_encode_code_point :: "nat \<Rightarrow> Uint8Array" where
  "utf8_encode_code_point c =
     (if c < 0x80 then [of_nat c]
      else if c < 0x800 then [of_nat (0xC0 + c div 64), of_nat (0x80 + c mod 64)]
      else if c < 0x10000 then
        [of_nat (0xE0 + c div 4096), of_nat (0x80 + c div 64 mod 64), of_nat (0x80 + c mod 64)]
      else
        [of_nat (0xF0 + c div 262144), of_nat (0x80 + c div 4096 mod 64),
         of_nat (0x80 + c div 64 mod 64), of_nat (0x80 + c mod 64)])"

definition TextEncoder_encode :: "js_string \<Rightarrow> Uint8Array" where
  "TextEncoder_encode message = concat (map utf8_encode_code_point (scalar_values message))"

record utf8_decoder =
  code_point :: nat
  bytes_seen :: nat
  bytes_needed :: nat
  lower_boundary :: nat
  upper_boundary :: nat

definition utf8_decoder_init :: utf8_decoder where
  "utf8_decoder_init = \<lparr>code_point = 0, bytes_seen = 0, bytes_needed = 0,
     lower_boundary = 0x80, upper_boundary = 0xBF\<rparr>"

function utf8_decode :: "utf8_decoder \<Rightarrow> Uint8Array \<Rightarrow> nat list" where
  "utf8_decode d [] = (if bytes_needed d \<noteq> 0 then [0xFFFD] else [])"
| "utf8_decode d (b # bs) =
     (let byte = unat b in
      if bytes_needed d = 0 then
        if byte \<le> 0x7F then byte # utf8_decode d bs
        else if 0xC2 \<le> byte \<and> byte \<le> 0xDF then
          utf8_decode (d\<lparr>bytes_needed := 1, code_point := byte mod 32\<rparr>) bs
        else if 0xE0 \<le> byte \<and> byte \<le> 0xEF then
          utf8_decode (d\<lparr>lower_boundary := (if byte = 0xE0 then 0xA0 else lower_boundary d),
                          upper_boundary := (if byte = 0xED then 0x9F else upper_boundary d),
                          bytes_needed := 2, code_point := byte mod 16\<rparr>) bs
        else if 0xF0 \<le> byte \<and> byte \<le> 0xF4 then
          utf8_decode (d\<lparr>lower_boundary := (if byte = 0xF0 then 0x90 else lower_boundary d),
                          upper_boundary := (if byte = 0xF4 then 0x8F else upper_boundary d),
                          bytes_needed := 3, code_point := byte mod 8\<rparr>) bs
        else 0xFFFD # utf8_decode d bs
      else if \<not> (lower_boundary d \<le> byte \<and> byte \<le> upper_boundary d) then
        0xFFFD # utf8_decode utf8_decoder_init (b # bs)
      else
        let d1 = d\<lparr>lower_boundary := 0x80, upper_boundary := 0xBF,
                    code_point := code_point d * 64 + byte mod 64,
                    bytes_seen := bytes_seen d + 1\<rparr>
        in if bytes_seen d1 \<noteq> bytes_needed d1 then utf8_decode d1 bs
           else code_point d1 # utf8_decode utf8_decoder_init bs)"
  by pat_completeness auto
termination
  by (relation "measure (\<lambda>(d, bs). 2 * length bs + (if bytes_needed d = 0 then 0 else 1))")
    (auto simp: utf8_decoder_init_def)

declare utf8_decode.simps [simp del]

definition utf16_encode_code_point :: "nat \<Rightarrow> js_string" where
  "utf16_encode_code_point c =
     (if c < 0x10000 then [of_nat c]
      else [of_nat (0xD800 + (c - 0x10000) div 0x400), of_nat (0xDC00 + (c - 0x10000) mod 0x400)])"

definition TextDecoder_decode :: "Uint8Array \<Rightarrow> js_string" where
  "TextDecoder_decode bytes =
     (let stream = (if take 3 bytes = [0xEF, 0xBB, 0xBF] then drop 3 bytes else bytes)
      in concat (map utf16_encode_code_point (utf8_decode utf8_decoder_init stream)))"

subsection \<open>Packing a message into an integer\<close>

function messageToNumber_loop :: "Uint8Array \<Rightarrow> nat \<Rightarrow> int \<Rightarrow> int" where
  "messageToNumber_loop bytes i number =
     (if i < length bytes
        then messageToNumber_loop bytes (i + 1)
               (number OR push_bit (i * 8) (uint (bytes ! i)))
      else number)"
  by pat_completeness auto
termination
  by (relation "measure (\<lambda>(bytes, i, number). length bytes - i)") auto

declare messageToNumber_loop.simps [simp del]

definition messageToNumber :: "js_string \<Rightarrow> js_error + int" where
  "messageToNumber message =
     (if length message > 16 then Inl (Error ''Message too long. Maximum 16 characters.'')
      else let bytes = TextEncoder_encode message
           in Inr (messageToNumber_loop bytes 0 0))"

function numberToMessage_loop :: "int \<Rightarrow> nat \<Rightarrow> int list \<Rightarrow> int list" where
  "numberToMessage_loop number i bytes =
     (if i < 16 then
        let byte = drop_bit (i * 8) number AND 0xFF
        in if byte = 0 then bytes else numberToMessage_loop number (i + 1) (bytes @ [byte])
      else bytes)"
  by pat_completeness auto
termination
  by (relation "measure (\<lambda>(number, i, bytes). 16 - i)") auto

declare numberToMessage_loop.simps [simp del]

definition numberToMessage :: "int \<Rightarrow> js_string" where
  "numberToMessage number =
     (let bytes = numberToMessage_loop number 0 []
      in TextDecoder_decode (map of_int bytes))"

subsection \<open>Well-formed text\<close>

text \<open>
  A scalar value is a code point that is not a surrogate. A string is well formed when
  every surrogate in it is half of a pair: a lead surrogate followed by a trail surrogate.
\<close>

definition is_scalar_value :: "nat \<Rightarrow> bool" where
  "is_scalar_value c \<longleftrightarrow> c < 0x110000 \<and> \<not> (0xD800 \<le> c \<and> c \<le> 0xDFFF)"

fun well_formed :: "js_string \<Rightarrow> bool" where
  "well_formed [] \<longleftrightarrow> True"
| "well_formed [u] \<longleftrightarrow> \<not> is_lead_surrogate u \<and> \<not> is_trail_surrogate u"
| "well_formed (u # v # vs) \<longleftrightarrow>
     (if is_lead_surrogate u \<and> is_trail_surrogate v then well_formed vs
      else \<not> is_lead_surrogate u \<and> \<not> is_trail_surrogate u \<and> well_formed (v # vs))"

subsection \<open>Three texts\<close>

text \<open>
  An \<^verbatim>\<open>a\<close>, a NUL character and a \<^verbatim>\<open>b\<close>; four characters of one, two, three and four
  UTF-8 bytes, the last a surrogate pair; six euro signs, of three UTF-8 bytes each.
\<close>

definition text_with_nul :: js_string where
  "text_with_nul = [0x61, 0, 0x62]"

definition text_mixed :: js_string where
  "text_mixed = [0x48, 0xE9, 0x20AC, 0xD83D, 0xDE00]"

definition text_euros :: js_string where
  "text_euros = [0x20AC, 0x20AC, 0x20AC, 0x20AC, 0x20AC, 0x20AC]"

section \<open>Properties of the ledger\<close>

subsection \<open>Checked arithmetic on 256-bit words\<close>

lemma inc_neq_0:
  fixes a :: uint256
  shows "a \<noteq> - 1 \<Longrightarrow> 1 + a \<noteq> 0"
  by (metis add_eq_0_iff)

lemma unat_inc:
  fixes a :: uint256
  assumes "a \<noteq> - 1"
  shows "unat (a + 1) = Suc (unat a)"
  using unatSuc [OF inc_neq_0 [OF assms]] by (simp add: add.commute)

lemma less_inc:
  fixes a :: uint256
  assumes "a \<noteq> - 1"
  shows "a < a + 1"
  using unat_inc [OF assms] by (simp add: word_less_nat_alt)

lemma le_inc_iff:
  fixes a q :: uint256
  assumes "a \<noteq> - 1"
  shows "q \<le> a + 1 \<longleftrightarrow> q \<le> a \<or> q = a + 1"
  using unat_inc [OF assms] by (auto simp: word_le_nat_alt word_unat_eq_iff)

lemma unat_checked_sum:
  fixes a b :: uint256
  assumes "unat a + unat b < 2 ^ 256"
  shows "unat (a + b) = unat a + unat b"
  using assms by (simp add: unat_word_ariths)

subsection \<open>When each operation succeeds, and what it writes\<close>

lemma createSession_Inr:
  "createSession e tpc dsc duration s = Inr (n, s') \<longleftrightarrow>
     msg_value e = 0 \<and> tpc \<noteq> [] \<and> duration \<noteq> 0 \<and> sessionCount s \<noteq> - 1 \<and>
     unat (block_timestamp e) + unat duration < 2 ^ 256 \<and>
     n = sessionCount s + 1 \<and>
     s' = s\<lparr>sessionCount := n,
        sessions := (sessions s)(n := \<lparr>id_Session = n, host = msg_sender e, topic = tpc,
          description = dsc, createdAt = block_timestamp e,
          expiresAt = block_timestamp e + duration, isActive = True, questionCount = 0,
          answeredCount = 0\<rparr>),
        hostSessions := (hostSessions s)(msg_sender e := hostSessions s (msg_sender e) @ [n]),
        events := events s @
          [SessionCreated n (msg_sender e) tpc (block_timestamp e + duration)]\<rparr>"
  by (auto simp: createSession_def Let_def checked_inc_def checked_add_def
      word_greater_zero_iff split: option.splits if_splits)

lemma answerQuestion_Inr:
  "answerQuestion e qid enc pf s = Inr (u, s') \<longleftrightarrow>
     0 < qid \<and> qid \<le> questionCount_total s \<and>
     host (sessions s (sessionId (questions s qid))) = msg_sender e \<and>
     \<not> isAnswered (questions s qid) \<and>
     answeredCount (sessions s (sessionId (questions s qid))) \<noteq> - 1 \<and>
     (\<exists>h. fromExternal e enc pf = Some h \<and>
       s' = s\<lparr>encryptedAnswers := (encryptedAnswers s)(qid := h),
              acl := insert (h, asker (questions s qid)) (insert (h, this e) (acl s)),
              questions := (questions s)(qid := (questions s qid)\<lparr>isAnswered := True\<rparr>),
              sessions := (sessions s)(sessionId (questions s qid) :=
                (sessions s (sessionId (questions s qid)))\<lparr>answeredCount :=
                   answeredCount (sessions s (sessionId (questions s qid))) + 1\<rparr>),
              events := events s @ [QuestionAnswered qid (sessionId (questions s qid))]\<rparr>)"
  by (auto simp: answerQuestion_def Let_def checked_inc_def
      split: option.splits if_splits)

lemma closeSession_Inr:
  "closeSession e sid s = Inr (u, s') \<longleftrightarrow>
     0 < sid \<and> sid \<le> sessionCount s \<and> host (sessions s sid) = msg_sender e \<and>
     isActive (sessions s sid) \<and>
     s' = s\<lparr>sessions := (sessions s)(sid := (sessions s sid)\<lparr>isActive := False\<rparr>),
            events := events s @ [SessionClosed sid]\<rparr>"
  by (auto simp: closeSession_def sessionExists_def onlyHost_def Let_def
      split: option.splits if_splits)

lemma requestQuestionAccess_Inr:
  "requestQuestionAccess e qid s = Inr (u, s') \<longleftrightarrow>
     0 < qid \<and> qid \<le> questionCount_total s \<and>
     host (sessions s (sessionId (questions s qid))) = msg_sender e \<and>
     s' = s\<lparr>acl := insert (encryptedQuestions s qid, msg_sender e) (acl s)\<rparr>"
  by (auto simp: requestQuestionAccess_def Let_def)

lemma requestAnswerAccess_Inr:
  "requestAnswerAccess e qid s = Inr (u, s') \<longleftrightarrow>
     0 < qid \<and> qid \<le> questionCount_total s \<and>
     asker (questions s qid) = msg_sender e \<and> isAnswered (questions s qid) \<and>
     s' = s\<lparr>acl := insert (encryptedAnswers s qid, msg_sender e) (acl s)\<rparr>"
  by (auto simp: requestAnswerAccess_def)

lemma submitQuestion_Inr:
  "submitQuestion e sid enc pf s = Inr (n, s') \<longleftrightarrow>
     msg_value e = 0 \<and> 0 < sid \<and> sid \<le> sessionCount s \<and> isActive (sessions s sid) \<and>
     block_timestamp e < expiresAt (sessions s sid) \<and>
     questionCount_total s \<noteq> - 1 \<and> questionCount (sessions s sid) \<noteq> - 1 \<and>
     n = questionCount_total s + 1 \<and>
     (\<exists>h. fromExternal e enc pf = Some h \<and>
       s' = s\<lparr>questionCount_total := n,
              encryptedQuestions := (encryptedQuestions s)(n := h),
              acl := insert (h, host (sessions s sid)) (insert (h, this e) (acl s)),
              questions := (questions s)(n := \<lparr>id_Question = n, sessionId = sid,
                 asker = msg_sender e, timestamp = block_timestamp e, isAnswered = False\<rparr>),
              sessionQuestions := (sessionQuestions s)(sid := sessionQuestions s sid @ [n]),
              userQuestions := (userQuestions s)(msg_sender e :=
                 userQuestions s (msg_sender e) @ [n]),
              sessions := (sessions s)(sid := (sessions s sid)\<lparr>questionCount :=
                 questionCount (sessions s sid) + 1\<rparr>),
              events := events s @ [QuestionSubmitted n sid (msg_sender e) (block_timestamp e)]\<rparr>)"
  by (auto simp: submitQuestion_def sessionExists_def sessionActive_def Let_def checked_inc_def
      split: option.splits if_splits)

lemma submitQuestion_fails_iff:
  "isl (submitQuestion e sid enc pf s) \<longleftrightarrow>
     msg_value e \<noteq> 0 \<or> sid = 0 \<or> sessionCount s < sid \<or> \<not> isActive (sessions s sid) \<or>
     expiresAt (sessions s sid) \<le> block_timestamp e \<or>
     questionCount_total s = - 1 \<or> questionCount (sessions s sid) = - 1 \<or>
     fromExternal e enc pf = None"
  by (auto simp: submitQuestion_def sessionExists_def sessionActive_def Let_def checked_inc_def
      word_greater_zero_iff
      split: option.splits if_splits)

lemma createSession_fails_iff:
  "isl (createSession e tpc dsc duration s) \<longleftrightarrow>
     msg_value e \<noteq> 0 \<or> tpc = [] \<or> duration = 0 \<or> sessionCount s = - 1 \<or>
     2 ^ 256 \<le> unat (block_timestamp e) + unat duration"
  by (auto simp: createSession_def Let_def checked_inc_def checked_add_def word_greater_zero_iff
      split: option.splits)

text \<open>The step of a transaction, case by case.\<close>

lemma state_after_cases:
  "state_after e c s = s \<and> rejected e c s \<or>
   (\<exists>tpc dsc duration n. c = CreateSession tpc dsc duration \<and>
      createSession e tpc dsc duration s = Inr (n, state_after e c s)) \<or>
   (\<exists>sid enc pf n. c = SubmitQuestion sid enc pf \<and>
      submitQuestion e sid enc pf s = Inr (n, state_after e c s)) \<or>
   (\<exists>qid. c = RequestQuestionAccess qid \<and>
      requestQuestionAccess e qid s = Inr ((), state_after e c s)) \<or>
   (\<exists>qid enc pf. c = AnswerQuestion qid enc pf \<and>
      answerQuestion e qid enc pf s = Inr ((), state_after e c s)) \<or>
   (\<exists>qid. c = RequestAnswerAccess qid \<and>
      requestAnswerAccess e qid s = Inr ((), state_after e c s)) \<or>
   (\<exists>sid. c = CloseSession sid \<and> closeSession e sid s = Inr ((), state_after e c s))"
proof (cases c)
  case (CreateSession tpc dsc duration)
  then show ?thesis
    by (cases "createSession e tpc dsc duration s")
      (auto simp: state_after_def rejected_def transact_def nonpayable_def)
next
  case (SubmitQuestion sid enc pf)
  then show ?thesis
    by (cases "submitQuestion e sid enc pf s")
      (auto simp: state_after_def rejected_def transact_def nonpayable_def)
next
  case (RequestQuestionAccess qid)
  then show ?thesis
    by (cases "requestQuestionAccess e qid s")
      (auto simp: state_after_def rejected_def transact_def nonpayable_def)
next
  case (AnswerQuestion qid enc pf)
  then show ?thesis
    by (cases "answerQuestion e qid enc pf s")
      (auto simp: state_after_def rejected_def transact_def nonpayable_def)
next
  case (RequestAnswerAccess qid)
  then show ?thesis
    by (cases "requestAnswerAccess e qid s")
      (auto simp: state_after_def rejected_def transact_def nonpayable_def)
next
  case (CloseSession sid)
  then show ?thesis
    by (cases "closeSession e sid s")
      (auto simp: state_after_def rejected_def transact_def nonpayable_def)
qed

lemma rejected_state_after: "rejected e c s \<Longrightarrow> state_after e c s = s"
  by (auto simp: rejected_def state_after_def transact_def split: sum.splits)

lemma require_before_effects:
  "body e c s = Inl (Require msg, t) \<Longrightarrow> t = s"
  by (cases c)
    (auto simp: createSession_def submitQuestion_def requestQuestionAccess_def
      answerQuestion_def requestAnswerAccess_def closeSession_def sessionExists_def
      sessionActive_def onlyHost_def nonpayable_def Let_def
      split: option.splits if_splits)

subsection \<open>The invariant of the ledger\<close>

lemma ledger_invD:
  assumes "ledger_inv s"
  shows "valid_question s q \<Longrightarrow> valid_session s (sessionId (questions s q))"
    and "set (sessionQuestions s sid) = {q. valid_question s q \<and> sessionId (questions s q) = sid}"
    and "distinct (sessionQuestions s sid)"
    and "valid_session s sid \<Longrightarrow>
           unat (questionCount (sessions s sid)) = length (sessionQuestions s sid)"
    and "valid_session s sid \<Longrightarrow>
           unat (answeredCount (sessions s sid)) = length (answered_in s sid)"
  using assms by (simp_all add: ledger_inv_def)

lemma ledger_inv_deployed: "ledger_inv deployed"
  by (auto simp: ledger_inv_def deployed_def valid_question_def valid_session_def
      answered_in_def zero_Session_def zero_Question_def)

lemma filter_mark:
  "distinct xs \<Longrightarrow> q \<in> set xs \<Longrightarrow> \<not> P q \<Longrightarrow>
     length (filter (\<lambda>x. x = q \<or> P x) xs) = Suc (length (filter P xs))"
proof (induction xs)
  case Nil
  then show ?case by simp
next
  case (Cons x xs)
  show ?case
  proof (cases "x = q")
    case True
    then have "q \<notin> set xs" using Cons.prems by simp
    then have "filter (\<lambda>x. x = q \<or> P x) xs = filter P xs"
      by (intro filter_cong) auto
    then show ?thesis using True Cons.prems by simp
  next
    case False
    then show ?thesis using Cons by simp
  qed
qed

lemma ledger_inv_createSession:
  assumes inv: "ledger_inv s" and ok: "createSession e tpc dsc duration s = Inr (n, s')"
  shows "ledger_inv s'"
proof -
  from ok have nomax: "sessionCount s \<noteq> - 1" and n: "n = sessionCount s + 1"
    and qs: "questions s' = questions s" "questionCount_total s' = questionCount_total s"
      "sessionQuestions s' = sessionQuestions s" "sessionCount s' = n"
    and ss: "sessions s' = (sessions s)(n := \<lparr>id_Session = n, host = msg_sender e, topic = tpc,
          description = dsc, createdAt = block_timestamp e,
          expiresAt = block_timestamp e + duration, isActive = True, questionCount = 0,
          answeredCount = 0\<rparr>)"
    by (simp_all add: createSession_Inr)
  have vq: "valid_question s' = valid_question s"
    by (simp add: fun_eq_iff valid_question_def qs)
  have vs: "valid_session s' sid \<longleftrightarrow> valid_session s sid \<or> sid = n" for sid
    using le_inc_iff [OF nomax, of sid] less_inc [OF nomax]
    by (auto simp: valid_session_def qs n word_greater_zero_iff)
  have fresh: "\<not> valid_session s n"
    using less_inc [OF nomax] by (auto simp: valid_session_def n)
  have ai: "answered_in s' = answered_in s"
    by (simp add: fun_eq_iff answered_in_def qs)
  have empty: "sessionQuestions s n = []"
  proof -
    have "set (sessionQuestions s n) = {}"
      using ledger_invD(1) [OF inv] fresh by (auto simp: ledger_invD(2) [OF inv])
    then show ?thesis by simp
  qed
  show ?thesis
    unfolding ledger_inv_def
  proof (intro conjI allI impI)
    fix q assume "valid_question s' q"
    then show "valid_session s' (sessionId (questions s' q))"
      using ledger_invD(1) [OF inv, of q] by (simp add: vq vs qs)
  next
    fix sid
    show "set (sessionQuestions s' sid) =
        {q. valid_question s' q \<and> sessionId (questions s' q) = sid}"
      by (simp add: vq qs ledger_invD(2) [OF inv])
    show "distinct (sessionQuestions s' sid)"
      by (simp add: qs ledger_invD(3) [OF inv])
  next
    fix sid assume v: "valid_session s' sid"
    show "unat (questionCount (sessions s' sid)) = length (sessionQuestions s' sid)"
    proof (cases "sid = n")
      case True
      then show ?thesis by (simp add: ss qs empty)
    next
      case False
      then show ?thesis using v ledger_invD(4) [OF inv, of sid] by (simp add: ss qs vs)
    qed
    show "unat (answeredCount (sessions s' sid)) = length (answered_in s' sid)"
    proof (cases "sid = n")
      case True
      then show ?thesis by (simp add: ss ai answered_in_def empty)
    next
      case False
      then show ?thesis using v ledger_invD(5) [OF inv, of sid] by (simp add: ss ai vs)
    qed
  qed
qed

lemma ledger_inv_submitQuestion:
  assumes inv: "ledger_inv s" and ok: "submitQuestion e sid enc pf s = Inr (n, s')"
  shows "ledger_inv s'"
proof -
  from ok have nomax: "questionCount_total s \<noteq> - 1" and n: "n = questionCount_total s + 1"
    and sidv: "valid_session s sid" and qcmax: "questionCount (sessions s sid) \<noteq> - 1"
    and sc: "sessionCount s' = sessionCount s" and qt: "questionCount_total s' = n"
    and qs: "questions s' = (questions s)(n := \<lparr>id_Question = n, sessionId = sid,
                 asker = msg_sender e, timestamp = block_timestamp e, isAnswered = False\<rparr>)"
    and sq: "sessionQuestions s' = (sessionQuestions s)(sid := sessionQuestions s sid @ [n])"
    and ss: "sessions s' = (sessions s)(sid := (sessions s sid)\<lparr>questionCount :=
                 questionCount (sessions s sid) + 1\<rparr>)"
    by (auto simp: submitQuestion_Inr valid_session_def)
  have vs: "valid_session s' = valid_session s"
    by (simp add: fun_eq_iff valid_session_def sc)
  have vq: "valid_question s' q \<longleftrightarrow> valid_question s q \<or> q = n" for q
    using le_inc_iff [OF nomax, of q] less_inc [OF nomax]
    by (auto simp: valid_question_def qt n word_greater_zero_iff)
  have fresh: "\<not> valid_question s n"
    using less_inc [OF nomax] by (auto simp: valid_question_def n)
  have old: "q \<in> set (sessionQuestions s x) \<Longrightarrow> q \<noteq> n" for q x
    using fresh by (auto simp: ledger_invD(2) [OF inv])
  have ai: "answered_in s' x = answered_in s x" for x
  proof -
    have "filter (\<lambda>q. isAnswered (questions s' q)) (sessionQuestions s x) =
          filter (\<lambda>q. isAnswered (questions s q)) (sessionQuestions s x)"
      by (rule filter_cong) (auto simp: qs dest: old)
    moreover have "\<not> isAnswered (questions s' n)"
      by (simp add: qs)
    ultimately show ?thesis
      unfolding answered_in_def sq by auto
  qed
  show ?thesis
    unfolding ledger_inv_def
  proof (intro conjI allI impI)
    fix q assume "valid_question s' q"
    then show "valid_session s' (sessionId (questions s' q))"
      using ledger_invD(1) [OF inv, of q] sidv fresh by (auto simp: vq vs qs)
  next
    fix x
    show "set (sessionQuestions s' x) =
        {q. valid_question s' q \<and> sessionId (questions s' q) = x}"
      using fresh by (auto simp: vq qs sq ledger_invD(2) [OF inv])
    show "distinct (sessionQuestions s' x)"
      using old [of n x] by (auto simp: sq ledger_invD(3) [OF inv])
  next
    fix x assume v: "valid_session s' x"
    show "unat (questionCount (sessions s' x)) = length (sessionQuestions s' x)"
      using v ledger_invD(4) [OF inv, of x] by (auto simp: ss sq vs unat_inc [OF qcmax])
    show "unat (answeredCount (sessions s' x)) = length (answered_in s' x)"
      using v ledger_invD(5) [OF inv, of x] by (auto simp: ss ai vs)
  qed
qed

lemma ledger_inv_answerQuestion:
  assumes inv: "ledger_inv s" and ok: "answerQuestion e qid enc pf s = Inr (u, s')"
  shows "ledger_inv s'"
proof -
  define sid where "sid = sessionId (questions s qid)"
  from ok have qv: "valid_question s qid" and una: "\<not> isAnswered (questions s qid)"
    and acmax: "answeredCount (sessions s sid) \<noteq> - 1"
    and sc: "sessionCount s' = sessionCount s"
    and qt: "questionCount_total s' = questionCount_total s"
    and qs: "questions s' = (questions s)(qid := (questions s qid)\<lparr>isAnswered := True\<rparr>)"
    and sq: "sessionQuestions s' = sessionQuestions s"
    and ss: "sessions s' = (sessions s)(sid := (sessions s sid)\<lparr>answeredCount :=
                 answeredCount (sessions s sid) + 1\<rparr>)"
    by (auto simp: answerQuestion_Inr valid_question_def sid_def)
  have vs: "valid_session s' = valid_session s"
    by (simp add: fun_eq_iff valid_session_def sc)
  have vq: "valid_question s' = valid_question s"
    by (simp add: fun_eq_iff valid_question_def qt)
  have si: "sessionId (questions s' q) = sessionId (questions s q)" for q
    by (simp add: qs)
  have ia: "isAnswered (questions s' q) \<longleftrightarrow> q = qid \<or> isAnswered (questions s q)" for q
    by (simp add: qs)
  have mem: "qid \<in> set (sessionQuestions s x) \<longleftrightarrow> x = sid" for x
    using qv by (auto simp: ledger_invD(2) [OF inv] sid_def)
  have ai_sid: "length (answered_in s' sid) = Suc (length (answered_in s sid))"
    unfolding answered_in_def sq ia
    by (rule filter_mark) (simp_all add: ledger_invD(3) [OF inv] mem una)
  have ai_other: "answered_in s' x = answered_in s x" if "x \<noteq> sid" for x
  proof -
    have "filter (\<lambda>q. isAnswered (questions s' q)) (sessionQuestions s x) =
          filter (\<lambda>q. isAnswered (questions s q)) (sessionQuestions s x)"
      using that by (intro filter_cong) (auto simp: ia mem)
    then show ?thesis by (simp add: answered_in_def sq)
  qed
  show ?thesis
    unfolding ledger_inv_def
  proof (intro conjI allI impI)
    fix q assume "valid_question s' q"
    then show "valid_session s' (sessionId (questions s' q))"
      using ledger_invD(1) [OF inv, of q] by (simp add: vq vs si)
  next
    fix x
    show "set (sessionQuestions s' x) =
        {q. valid_question s' q \<and> sessionId (questions s' q) = x}"
      by (simp add: vq si sq ledger_invD(2) [OF inv])
    show "distinct (sessionQuestions s' x)"
      by (simp add: sq ledger_invD(3) [OF inv])
  next
    fix x assume v: "valid_session s' x"
    show "unat (questionCount (sessions s' x)) = length (sessionQuestions s' x)"
      using v ledger_invD(4) [OF inv, of x] by (auto simp: ss sq vs)
    show "unat (answeredCount (sessions s' x)) = length (answered_in s' x)"
    proof (cases "x = sid")
      case True
      then show ?thesis
        using v ledger_invD(5) [OF inv, of sid]
        by (simp add: ss vs ai_sid unat_inc [OF acmax])
    next
      case False
      then show ?thesis
        using v ledger_invD(5) [OF inv, of x] by (simp add: ss vs ai_other)
    qed
  qed
qed

lemma ledger_inv_closeSession:
  assumes inv: "ledger_inv s" and ok: "closeSession e sid s = Inr (u, s')"
  shows "ledger_inv s'"
proof -
  from ok have s': "s' = s\<lparr>sessions := (sessions s)(sid := (sessions s sid)\<lparr>isActive := False\<rparr>),
            events := events s @ [SessionClosed sid]\<rparr>"
    by (simp add: closeSession_Inr)
  show ?thesis
    using inv
    by (simp add: ledger_inv_def valid_question_def valid_session_def answered_in_def s')
qed

lemma ledger_inv_acl:
  assumes inv: "ledger_inv s"
  shows "ledger_inv (s\<lparr>acl := A\<rparr>)"
  using inv by (simp add: ledger_inv_def valid_question_def valid_session_def answered_in_def)

lemma ledger_inv_step:
  assumes inv: "ledger_inv s"
  shows "ledger_inv (state_after e c s)"
  using state_after_cases [of e c s] inv
  by (auto simp: requestQuestionAccess_Inr requestAnswerAccess_Inr
      intro: ledger_inv_createSession ledger_inv_submitQuestion ledger_inv_answerQuestion
        ledger_inv_closeSession ledger_inv_acl)

lemma ledger_inv_run: "ledger_inv s \<Longrightarrow> ledger_inv (run cs s)"
  by (induction cs s rule: run.induct) (simp_all add: ledger_inv_step)

lemma ledger_inv_run_deployed: "ledger_inv (run cs deployed)"
  by (simp add: ledger_inv_run ledger_inv_deployed)

lemma ledger_inv_counts_ok:
  assumes "ledger_inv s"
  shows "counts_ok s"
  unfolding counts_ok_def
proof (intro allI impI)
  fix sid assume "0 < sid \<and> sid \<le> sessionCount s"
  then have v: "valid_session s sid" by (simp add: valid_session_def)
  have "length (answered_in s sid) \<le> length (sessionQuestions s sid)"
    by (simp add: answered_in_def)
  then show "answeredCount (sessions s sid) \<le> questionCount (sessions s sid) \<and>
        length (sessionQuestions s sid) = unat (questionCount (sessions s sid))"
    using ledger_invD(4,5) [OF assms v] by (simp add: word_le_nat_alt)
qed

subsection \<open>What later transactions cannot undo\<close>

text \<open>What a transaction never changes.\<close>

lemma step_stable:
  "valid_question s q \<Longrightarrow> valid_question (state_after e c s) q"
  "valid_question s q \<Longrightarrow>
     sessionId (questions (state_after e c s) q) = sessionId (questions s q)"
  "valid_question s q \<Longrightarrow> asker (questions (state_after e c s) q) = asker (questions s q)"
  "isAnswered (questions s q) \<Longrightarrow> valid_question s q \<Longrightarrow>
     isAnswered (questions (state_after e c s) q)"
  "valid_session s sid \<Longrightarrow> valid_session (state_after e c s) sid"
  "valid_session s sid \<Longrightarrow> host (sessions (state_after e c s) sid) = host (sessions s sid)"
  using state_after_cases [of e c s]
  by (auto simp: createSession_Inr submitQuestion_Inr answerQuestion_Inr closeSession_Inr
      requestQuestionAccess_Inr requestAnswerAccess_Inr valid_question_def valid_session_def
      le_inc_iff dest: less_inc inc_less_eq_triv_imp)

lemma run_stable:
  "valid_question s q \<Longrightarrow> valid_question (run cs s) q"
  "valid_question s q \<Longrightarrow> sessionId (questions (run cs s) q) = sessionId (questions s q)"
  "valid_question s q \<Longrightarrow> asker (questions (run cs s) q) = asker (questions s q)"
  "isAnswered (questions s q) \<Longrightarrow> valid_question s q \<Longrightarrow> isAnswered (questions (run cs s) q)"
  "valid_session s sid \<Longrightarrow> valid_session (run cs s) sid"
  "valid_session s sid \<Longrightarrow> host (sessions (run cs s) sid) = host (sessions s sid)"
  by (induction cs s rule: run.induct) (simp_all add: step_stable)

text \<open>Answers are only ever marked by a successful \<^verbatim>\<open>answerQuestion\<close>.\<close>

lemma isAnswered_step:
  assumes a: "isAnswered (questions (state_after e c s) q)"
  shows "isAnswered (questions s q) \<or>
     (\<exists>enc pf. c = AnswerQuestion q enc pf \<and> \<not> rejected e c s)"
proof (cases "rejected e c s")
  case True
  then show ?thesis using a by (simp add: rejected_state_after)
next
  case False
  show ?thesis
    using state_after_cases [of e c s] a False
    by (auto simp: createSession_Inr submitQuestion_Inr answerQuestion_Inr closeSession_Inr
        requestQuestionAccess_Inr requestAnswerAccess_Inr split: if_splits)
qed

lemma run_snoc: "run (cs @ [(e, c)]) s = state_after e c (run cs s)"
  by (induction cs s rule: run.induct) simp_all

lemma isAnswered_run:
  "isAnswered (questions (run cs deployed) q) \<Longrightarrow>
     \<exists>pre e enc pf post. cs = pre @ (e, AnswerQuestion q enc pf) # post \<and>
        \<not> rejected e (AnswerQuestion q enc pf) (run pre deployed)"
proof (induction cs rule: rev_induct)
  case Nil
  then show ?case by (simp add: deployed_def zero_Question_def)
next
  case (snoc x cs)
  obtain e c where x: "x = (e, c)" by (cases x)
  from snoc.prems have "isAnswered (questions (state_after e c (run cs deployed)) q)"
    by (simp add: x run_snoc)
  then consider "isAnswered (questions (run cs deployed) q)"
    | enc pf where "c = AnswerQuestion q enc pf" "\<not> rejected e c (run cs deployed)"
    using isAnswered_step by blast
  then show ?case
  proof cases
    case 1
    then obtain pre e' enc pf post where
      "cs = pre @ (e', AnswerQuestion q enc pf) # post"
      "\<not> rejected e' (AnswerQuestion q enc pf) (run pre deployed)"
      using snoc.IH by blast
    then have "cs @ [x] = pre @ (e', AnswerQuestion q enc pf) # (post @ [x])"
      "\<not> rejected e' (AnswerQuestion q enc pf) (run pre deployed)"
      by simp_all
    then show ?thesis by blast
  next
    case 2
    then have "cs @ [x] = cs @ (e, AnswerQuestion q enc pf) # []"
      "\<not> rejected e (AnswerQuestion q enc pf) (run cs deployed)"
      by (simp_all add: x)
    then show ?thesis by blast
  qed
qed

subsection \<open>The concrete run, evaluated\<close>

lemma state1_eq:
  "state1 = deployed\<lparr>sessionCount := 1, sessions := (sessions deployed)(1 := session1),
     hostSessions := (hostSessions deployed)(alice := [1]),
     events := [SessionCreated 1 alice ''AMA'' 4600]\<rparr>"
  by (simp add: state1_def state_after_def transact_def createSession_def Let_def
      checked_inc_def checked_add_def env_of_def deployed_def session1_def)

lemma state2_eq:
  "state2 = state1\<lparr>questionCount_total := 1,
     encryptedQuestions := (encryptedQuestions state1)(1 := 77),
     acl := {(77, alice), (77, 255)},
     questions := (questions state1)(1 := question1),
     sessionQuestions := (sessionQuestions state1)(1 := [1]),
     userQuestions := (userQuestions state1)(bob := [1]),
     sessions := (sessions state1)(1 := session1\<lparr>questionCount := 1\<rparr>),
     events := events state1 @ [QuestionSubmitted 1 1 bob 1001]\<rparr>"
  by (simp add: state2_def state_after_def transact_def
      submitQuestion_def sessionExists_def sessionActive_def Let_def
      checked_inc_def env_of_def accepting_def state1_eq deployed_def session1_def
      question1_def alice_def bob_def)

lemma state3_eq:
  "state3 = state2\<lparr>encryptedAnswers := (encryptedAnswers state2)(1 := 88),
     acl := {(88, bob), (88, 255), (77, alice), (77, 255)},
     questions := (questions state2)(1 := question1\<lparr>isAnswered := True\<rparr>),
     sessions := (sessions state2)(1 := session1\<lparr>questionCount := 1, answeredCount := 1\<rparr>),
     events := events state2 @ [QuestionAnswered 1 1]\<rparr>"
  by (simp add: state3_def state_after_def transact_def nonpayable_def
      answerQuestion_def Let_def
      checked_inc_def env_of_def accepting_def state2_eq state1_eq deployed_def session1_def
      question1_def alice_def bob_def)

lemma run_scenario: "run scenario deployed = state3"
  by (simp add: scenario_def state1_def state2_def state3_def)

lemma run_butlast_scenario: "run (butlast scenario) deployed = state2"
  by (simp add: scenario_def state1_def state2_def)

lemmas scenario_simps = state3_eq state2_eq state1_eq deployed_def session1_def question1_def
  alice_def bob_def env_of_def accepting_def zero_Session_def zero_Question_def

lemma create_state1:
  "createSession (env_of alice 1000) ''AMA'' ''desc'' 3600 deployed = Inr (1, state1)"
  by (simp add: createSession_Inr state1_eq deployed_def session1_def env_of_def)

lemma submit_state2: "submitQuestion (env_of bob 1001) 1 77 [] state1 = Inr (1, state2)"
  by (simp add: submitQuestion_Inr scenario_simps)

lemma answer_state3: "answerQuestion (env_of alice 1002) 1 88 [] state2 = Inr ((), state3)"
  by (simp add: answerQuestion_Inr scenario_simps)

section \<open>The claims about the ledger\<close>

subsection \<open>Submitting a question\<close>

text \<open>
  Claim C1, as amended. A call of \<^verbatim>\<open>submitQuestion\<close> fails when the session does not
  exist (its id is 0 or above \<open>sessionCount\<close>), when it is not active, or when the block
  time has reached its \<open>expiresAt\<close>. Otherwise, provided the call carries no value (the
  function is not \<^verbatim>\<open>payable\<close>), the engine accepts the external ciphertext with its
  proof, and neither question counter stands at \<open>2 ^ 256 - 1\<close>, the call succeeds. Every call that succeeds returns the next question id, adds exactly one to the
  session's \<open>questionCount\<close>, records the caller as asker, stores the handle with access
  for the host, and appends the new id to the question index of the session and to that of
  the caller.
\<close>

theorem submitQuestion_spec:
  "(sid = 0 \<or> sessionCount s < sid \<or> \<not> isActive (sessions s sid) \<or>
      expiresAt (sessions s sid) \<le> block_timestamp e
      \<longrightarrow> isl (submitQuestion e sid enc pf s)) \<and>
   (\<not> (sid = 0 \<or> sessionCount s < sid \<or> \<not> isActive (sessions s sid) \<or>
      expiresAt (sessions s sid) \<le> block_timestamp e) \<and>
    msg_value e = 0 \<and> fromExternal e enc pf \<noteq> None \<and>
    questionCount_total s \<noteq> - 1 \<and> questionCount (sessions s sid) \<noteq> - 1
      \<longrightarrow> \<not> isl (submitQuestion e sid enc pf s)) \<and>
   (\<forall>n s'. submitQuestion e sid enc pf s = Inr (n, s') \<longrightarrow>
      n = questionCount_total s + 1 \<and> questionCount_total s' = n \<and>
      questionCount (sessions s' sid) = questionCount (sessions s sid) + 1 \<and>
      unat (questionCount (sessions s' sid)) = unat (questionCount (sessions s sid)) + 1 \<and>
      asker (questions s' n) = msg_sender e \<and> sessionId (questions s' n) = sid \<and>
      \<not> isAnswered (questions s' n) \<and>
      fromExternal e enc pf = Some (encryptedQuestions s' n) \<and>
      (encryptedQuestions s' n, host (sessions s sid)) \<in> acl s' \<and>
      sessionQuestions s' sid = sessionQuestions s sid @ [n] \<and>
      userQuestions s' (msg_sender e) = userQuestions s (msg_sender e) @ [n])"
proof (intro conjI allI impI)
  assume "sid = 0 \<or> sessionCount s < sid \<or> \<not> isActive (sessions s sid) \<or>
      expiresAt (sessions s sid) \<le> block_timestamp e"
  then show "isl (submitQuestion e sid enc pf s)"
    unfolding submitQuestion_fails_iff by blast
next
  assume "\<not> (sid = 0 \<or> sessionCount s < sid \<or> \<not> isActive (sessions s sid) \<or>
      expiresAt (sessions s sid) \<le> block_timestamp e) \<and>
    msg_value e = 0 \<and> fromExternal e enc pf \<noteq> None \<and>
    questionCount_total s \<noteq> - 1 \<and> questionCount (sessions s sid) \<noteq> - 1"
  then show "\<not> isl (submitQuestion e sid enc pf s)"
    unfolding submitQuestion_fails_iff by blast
next
  fix n s'
  assume ok: "submitQuestion e sid enc pf s = Inr (n, s')"
  then obtain h where nomax: "questionCount (sessions s sid) \<noteq> - 1"
    and n: "n = questionCount_total s + 1" and h: "fromExternal e enc pf = Some h"
    and s': "s' = s\<lparr>questionCount_total := n,
              encryptedQuestions := (encryptedQuestions s)(n := h),
              acl := insert (h, host (sessions s sid)) (insert (h, this e) (acl s)),
              questions := (questions s)(n := \<lparr>id_Question = n, sessionId = sid,
                 asker = msg_sender e, timestamp = block_timestamp e, isAnswered = False\<rparr>),
              sessionQuestions := (sessionQuestions s)(sid := sessionQuestions s sid @ [n]),
              userQuestions := (userQuestions s)(msg_sender e :=
                 userQuestions s (msg_sender e) @ [n]),
              sessions := (sessions s)(sid := (sessions s sid)\<lparr>questionCount :=
                 questionCount (sessions s sid) + 1\<rparr>),
              events := events s @ [QuestionSubmitted n sid (msg_sender e) (block_timestamp e)]\<rparr>"
    unfolding submitQuestion_Inr by blast
  show "n = questionCount_total s + 1" by (rule n)
  show "questionCount_total s' = n"
    "questionCount (sessions s' sid) = questionCount (sessions s sid) + 1"
    "asker (questions s' n) = msg_sender e" "sessionId (questions s' n) = sid"
    "\<not> isAnswered (questions s' n)"
    "fromExternal e enc pf = Some (encryptedQuestions s' n)"
    "(encryptedQuestions s' n, host (sessions s sid)) \<in> acl s'"
    "sessionQuestions s' sid = sessionQuestions s sid @ [n]"
    "userQuestions s' (msg_sender e) = userQuestions s (msg_sender e) @ [n]"
    by (simp_all add: s' h)
  show "unat (questionCount (sessions s' sid)) = unat (questionCount (sessions s sid)) + 1"
    by (simp add: s' unat_inc [OF nomax])
qed

text \<open>
  The amended claim C1 at work: in the state after Alice's \<^verbatim>\<open>createSession\<close>, a
  submission to session 0 fails and Bob's submission to session 1 succeeds.
\<close>

theorem submitQuestion_spec_witness:
  "isl (submitQuestion (env_of bob 1001) 0 77 [] state1) \<and>
   msg_value (env_of bob 1001) = 0 \<and> fromExternal (env_of bob 1001) 77 [] \<noteq> None \<and>
   questionCount_total state1 \<noteq> - 1 \<and> questionCount (sessions state1 1) \<noteq> - 1 \<and>
   \<not> isl (submitQuestion (env_of bob 1001) 1 77 [] state1) \<and>
   submitQuestion (env_of bob 1001) 1 77 [] state1 = Inr (1, state2) \<and>
   questionCount (sessions state1 1) = 0 \<and> questionCount (sessions state2 1) = 1 \<and>
   asker (questions state2 1) = bob \<and> sessionQuestions state2 1 = [1] \<and>
   userQuestions state2 bob = [1]"
proof -
  note none = submitQuestion_spec [of 0 state1 "env_of bob 1001" 77 "[]"]
  note one = submitQuestion_spec [of 1 state1 "env_of bob 1001" 77 "[]"]
  from none have 1: "isl (submitQuestion (env_of bob 1001) 0 77 [] state1)"
    by blast
  have p: "\<not> ((1 :: uint256) = 0 \<or> sessionCount state1 < 1 \<or> \<not> isActive (sessions state1 1) \<or>
      expiresAt (sessions state1 1) \<le> block_timestamp (env_of bob 1001))"
    "msg_value (env_of bob 1001) = 0" "fromExternal (env_of bob 1001) 77 [] \<noteq> None"
    "questionCount_total state1 \<noteq> - 1" "questionCount (sessions state1 1) \<noteq> - 1"
    by (simp_all add: state1_eq deployed_def session1_def env_of_def accepting_def)
  from one p have 2: "\<not> isl (submitQuestion (env_of bob 1001) 1 77 [] state1)"
    by blast
  from one submit_state2
  have "questionCount (sessions state2 1) = questionCount (sessions state1 1) + 1 \<and>
     asker (questions state2 1) = msg_sender (env_of bob 1001) \<and>
     sessionQuestions state2 1 = sessionQuestions state1 1 @ [1] \<and>
     userQuestions state2 (msg_sender (env_of bob 1001)) =
       userQuestions state1 (msg_sender (env_of bob 1001)) @ [1]"
    by blast
  moreover have "questionCount (sessions state1 1) = 0" "sessionQuestions state1 1 = []"
    "userQuestions state1 bob = []" "msg_sender (env_of bob 1001) = bob"
    by (simp_all add: state1_eq deployed_def session1_def env_of_def)
  ultimately show ?thesis
    using 1 2 p(2-5) submit_state2 by simp
qed

text \<open>
  Claim C1 as stated says that every call to an existing, active, unexpired session
  succeeds. Two calls to session 1 of the ledger after Alice's \<^verbatim>\<open>createSession\<close> that do
  not: with an engine that rejects the input proof the call aborts inside
  \<^verbatim>\<open>FHE.fromExternal\<close>; and a call that carries value aborts because the function is not
  \<^verbatim>\<open>payable\<close>.
\<close>

theorem submitQuestion_counterexample:
  "0 < (1 :: uint256) \<and> 1 \<le> sessionCount state1 \<and> isActive (sessions state1 1) \<and>
   block_timestamp (env_of bob 1001) < expiresAt (sessions state1 1) \<and>
   isl (submitQuestion ((env_of bob 1001)\<lparr>fromExternal := rejecting\<rparr>) 1 77 [] state1) \<and>
   isl (submitQuestion ((env_of bob 1001)\<lparr>msg_value := 1\<rparr>) 1 77 [] state1)"
  by (simp add: submitQuestion_def sessionExists_def sessionActive_def Let_def
      checked_inc_def rejecting_def scenario_simps)

subsection \<open>Answering a question\<close>

text \<open>
  Claim C2. Let \<^verbatim>\<open>answerQuestion\<close> succeed on a question, in a ledger that arose from
  the deployed contract by some transactions. The
  call found \<open>isAnswered\<close> false and leaves it true, adds one to the \<open>answeredCount\<close> of
  the question's session, and stores the answer handle with access for the recorded asker.
  After any further transactions \<open>isAnswered\<close> is still true and every
  \<^verbatim>\<open>answerQuestion\<close> on that question fails, whoever calls; for the caller of the first
  answer, the host, the failure is \<^verbatim>\<open>Already answered\<close>.
\<close>

theorem answer_once:
  assumes r: "s = run before deployed"
    and ok: "answerQuestion e qid enc pf s = Inr ((), s')"
  shows "\<not> isAnswered (questions s qid) \<and> isAnswered (questions s' qid) \<and>
     answeredCount (sessions s' (sessionId (questions s qid))) =
       answeredCount (sessions s (sessionId (questions s qid))) + 1 \<and>
     unat (answeredCount (sessions s' (sessionId (questions s qid)))) =
       unat (answeredCount (sessions s (sessionId (questions s qid)))) + 1 \<and>
     fromExternal e enc pf = Some (encryptedAnswers s' qid) \<and>
     (encryptedAnswers s' qid, asker (questions s qid)) \<in> acl s' \<and>
     (\<forall>cs e' enc' pf'.
        isAnswered (questions (run cs s') qid) \<and>
        isl (answerQuestion e' qid enc' pf' (run cs s')) \<and>
        (msg_sender e' = msg_sender e \<longrightarrow>
           answerQuestion e' qid enc' pf' (run cs s') =
             Inl (Require ''Already answered'', run cs s')))"
proof -
  define sid where "sid = sessionId (questions s qid)"
  from ok obtain h where qv: "valid_question s qid" and una: "\<not> isAnswered (questions s qid)"
    and hst: "host (sessions s sid) = msg_sender e"
    and acmax: "answeredCount (sessions s sid) \<noteq> - 1"
    and h: "fromExternal e enc pf = Some h"
    and s': "s' = s\<lparr>encryptedAnswers := (encryptedAnswers s)(qid := h),
              acl := insert (h, asker (questions s qid)) (insert (h, this e) (acl s)),
              questions := (questions s)(qid := (questions s qid)\<lparr>isAnswered := True\<rparr>),
              sessions := (sessions s)(sid := (sessions s sid)\<lparr>answeredCount :=
                   answeredCount (sessions s sid) + 1\<rparr>),
              events := events s @ [QuestionAnswered qid sid]\<rparr>"
    by (auto simp: answerQuestion_Inr valid_question_def sid_def)
  have sv: "valid_session s sid"
    using ledger_invD(1) [OF ledger_inv_run_deployed [of before] qv [unfolded r]]
    by (simp add: sid_def r)
  have qv': "valid_question s' qid" using qv by (simp add: valid_question_def s')
  have sv': "valid_session s' sid" using sv by (simp add: valid_session_def s')
  have a': "isAnswered (questions s' qid)" by (simp add: s')
  have later: "isAnswered (questions (run cs s') qid) \<and>
        isl (answerQuestion e' qid enc' pf' (run cs s')) \<and>
        (msg_sender e' = msg_sender e \<longrightarrow>
           answerQuestion e' qid enc' pf' (run cs s') =
             Inl (Require ''Already answered'', run cs s'))" for cs e' enc' pf'
  proof -
    let ?t = "run cs s'"
    have 1: "isAnswered (questions ?t qid)" by (rule run_stable(4) [OF a' qv'])
    have 2: "valid_question ?t qid" by (rule run_stable(1) [OF qv'])
    have 3: "sessionId (questions ?t qid) = sid"
      using run_stable(2) [OF qv', of cs] by (simp add: s' sid_def)
    have 4: "host (sessions ?t sid) = msg_sender e"
      using run_stable(6) [OF sv', of cs] hst by (simp add: s')
    show ?thesis
      using 1 2 3 4 by (simp add: answerQuestion_def Let_def valid_question_def)
  qed
  show ?thesis
    using una a' h later
    by (simp add: s' sid_def [symmetric] unat_inc [OF acmax])
qed

text \<open>
  Claim C2 in the concrete run: Alice's answer to question 1 succeeds, and her second
  attempt, after Bob has requested access to the answer, fails with
  \<^verbatim>\<open>Already answered\<close>.
\<close>

theorem answer_once_witness:
  "state2 = run (butlast scenario) deployed \<and>
   answerQuestion (env_of alice 1002) 1 88 [] state2 = Inr ((), state3) \<and>
   \<not> isAnswered (questions state2 1) \<and> isAnswered (questions state3 1) \<and>
   answeredCount (sessions state2 1) = 0 \<and> answeredCount (sessions state3 1) = 1 \<and>
   (encryptedAnswers state3 1, bob) \<in> acl state3 \<and>
   msg_sender (env_of alice 1005) = msg_sender (env_of alice 1002) \<and>
   answerQuestion (env_of alice 1005) 1 99 []
      (run [(env_of bob 1003, RequestAnswerAccess 1)] state3) =
     Inl (Require ''Already answered'', run [(env_of bob 1003, RequestAnswerAccess 1)] state3)"
proof -
  note h = answer_once [OF run_butlast_scenario [symmetric] answer_state3]
  from h have "\<forall>cs e' enc' pf'.
        isAnswered (questions (run cs state3) 1) \<and>
        isl (answerQuestion e' 1 enc' pf' (run cs state3)) \<and>
        (msg_sender e' = msg_sender (env_of alice 1002) \<longrightarrow>
           answerQuestion e' 1 enc' pf' (run cs state3) =
             Inl (Require ''Already answered'', run cs state3))"
    by blast
  then have "msg_sender (env_of alice 1005) = msg_sender (env_of alice 1002) \<longrightarrow>
     answerQuestion (env_of alice 1005) 1 99 []
      (run [(env_of bob 1003, RequestAnswerAccess 1)] state3) =
     Inl (Require ''Already answered'', run [(env_of bob 1003, RequestAnswerAccess 1)] state3)"
    by blast
  moreover have "msg_sender (env_of alice 1005) = msg_sender (env_of alice 1002)"
    by (simp add: env_of_def)
  ultimately show ?thesis
    using h run_butlast_scenario answer_state3 by (simp add: scenario_simps)
qed

subsection \<open>Creating a session\<close>

text \<open>
  Claim C3, as amended. \<^verbatim>\<open>createSession\<close> fails exactly when the call carries value
  (the function is not \<^verbatim>\<open>payable\<close>), the topic is empty, the duration is 0, the session
  counter stands at \<open>2 ^ 256 - 1\<close>, or block time plus duration does not fit into 256 bits. On success it returns \<open>sessionCount + 1\<close> and stores under this
  id a session with the caller as host, \<open>createdAt\<close> the block time,
  \<open>expiresAt = createdAt + duration\<close> without wrap-around (so \<open>createdAt < expiresAt\<close>),
  both counts 0 and \<open>isActive\<close> true, and it appends the id to the caller's session index.
\<close>

theorem createSession_spec:
  "(isl (createSession e tpc dsc duration s) \<longleftrightarrow>
      msg_value e \<noteq> 0 \<or> tpc = [] \<or> duration = 0 \<or> sessionCount s = - 1 \<or>
      2 ^ 256 \<le> unat (block_timestamp e) + unat duration) \<and>
   (\<forall>n s'. createSession e tpc dsc duration s = Inr (n, s') \<longrightarrow>
      n = sessionCount s + 1 \<and> sessionCount s' = n \<and>
      id_Session (sessions s' n) = n \<and>
      createdAt (sessions s' n) = block_timestamp e \<and>
      expiresAt (sessions s' n) = createdAt (sessions s' n) + duration \<and>
      unat (expiresAt (sessions s' n)) = unat (createdAt (sessions s' n)) + unat duration \<and>
      createdAt (sessions s' n) < expiresAt (sessions s' n) \<and>
      host (sessions s' n) = msg_sender e \<and>
      topic (sessions s' n) = tpc \<and> description (sessions s' n) = dsc \<and>
      questionCount (sessions s' n) = 0 \<and> answeredCount (sessions s' n) = 0 \<and>
      isActive (sessions s' n) \<and>
      hostSessions s' (msg_sender e) = hostSessions s (msg_sender e) @ [n])"
proof (intro conjI allI impI)
  show "isl (createSession e tpc dsc duration s) \<longleftrightarrow>
      msg_value e \<noteq> 0 \<or> tpc = [] \<or> duration = 0 \<or> sessionCount s = - 1 \<or>
      2 ^ 256 \<le> unat (block_timestamp e) + unat duration"
    by (rule createSession_fails_iff)
next
  fix n s'
  assume ok: "createSession e tpc dsc duration s = Inr (n, s')"
  then have nz: "duration \<noteq> 0" and fit: "unat (block_timestamp e) + unat duration < 2 ^ 256"
    and n: "n = sessionCount s + 1"
    and s': "s' = s\<lparr>sessionCount := n,
        sessions := (sessions s)(n := \<lparr>id_Session = n, host = msg_sender e, topic = tpc,
          description = dsc, createdAt = block_timestamp e,
          expiresAt = block_timestamp e + duration, isActive = True, questionCount = 0,
          answeredCount = 0\<rparr>),
        hostSessions := (hostSessions s)(msg_sender e := hostSessions s (msg_sender e) @ [n]),
        events := events s @ [SessionCreated n (msg_sender e) tpc (block_timestamp e + duration)]\<rparr>"
    by (auto simp: createSession_def Let_def checked_inc_def checked_add_def
        word_greater_zero_iff split: option.splits if_splits)
  show "n = sessionCount s + 1" by (rule n)
  show "sessionCount s' = n" "id_Session (sessions s' n) = n"
    "createdAt (sessions s' n) = block_timestamp e"
    "expiresAt (sessions s' n) = createdAt (sessions s' n) + duration"
    "host (sessions s' n) = msg_sender e"
    "topic (sessions s' n) = tpc" "description (sessions s' n) = dsc"
    "questionCount (sessions s' n) = 0" "answeredCount (sessions s' n) = 0"
    "isActive (sessions s' n)"
    "hostSessions s' (msg_sender e) = hostSessions s (msg_sender e) @ [n]"
    by (simp_all add: s')
  show u: "unat (expiresAt (sessions s' n)) = unat (createdAt (sessions s' n)) + unat duration"
    by (simp add: s' unat_checked_sum [OF fit])
  have "unat duration \<noteq> 0" using nz by (simp add: unat_eq_0)
  then show "createdAt (sessions s' n) < expiresAt (sessions s' n)"
    using u by (simp add: word_less_nat_alt)
qed

text \<open>
  The amended claim C3 at work: Alice's call on the freshly deployed contract.
\<close>

theorem createSession_spec_witness:
  "createSession (env_of alice 1000) ''AMA'' ''desc'' 3600 deployed = Inr (1, state1) \<and>
   sessionCount state1 = 1 \<and> host (sessions state1 1) = alice \<and>
   createdAt (sessions state1 1) = 1000 \<and> expiresAt (sessions state1 1) = 4600 \<and>
   createdAt (sessions state1 1) < expiresAt (sessions state1 1) \<and>
   hostSessions state1 alice = [1]"
  using createSession_spec [of "env_of alice 1000" "''AMA''" "''desc''" 3600 deployed]
    create_state1
  by (simp add: env_of_def deployed_def)

text \<open>
  Claim C3 as stated says that \<^verbatim>\<open>createSession\<close> fails only for an empty topic or a
  duration of 0. With topic \<^verbatim>\<open>AMA\<close>, block time 1000 and duration \<open>2 ^ 256 - 1\<close> the
  checked sum \<^verbatim>\<open>block.timestamp + duration\<close> overflows and the call fails.
\<close>

theorem createSession_overflow_counterexample:
  "\<not> (isl (createSession (env_of alice 1000) ''AMA'' ''desc'' (- 1) deployed) \<longleftrightarrow>
       ''AMA'' = [] \<or> (- 1 :: uint256) \<le> 0)"
   by (simp add: createSession_def Let_def checked_inc_def checked_add_def env_of_def deployed_def
       word_greater_zero_iff unsigned_minus_1_eq_mask mask_eq_exp_minus_1)

subsection \<open>Who may call\<close>

text \<open>
  Claim C4. A caller other than the recorded host of a question's session is rejected by
  \<^verbatim>\<open>answerQuestion\<close> and \<^verbatim>\<open>requestQuestionAccess\<close> for that question, and a caller other
  than the recorded host of a session is rejected by \<^verbatim>\<open>closeSession\<close> for that session;
  so a call of one of the three that succeeds comes from the host.
\<close>

theorem host_only:
  "(msg_sender e \<noteq> host (sessions s (sessionId (questions s qid)))
      \<longrightarrow> answerQuestion e qid enc pf s = Inl (Require ''Invalid question ID'', s) \<or>
          answerQuestion e qid enc pf s = Inl (Require ''Not session host'', s)) \<and>
   (msg_sender e \<noteq> host (sessions s (sessionId (questions s qid)))
      \<longrightarrow> requestQuestionAccess e qid s = Inl (Require ''Invalid question ID'', s) \<or>
          requestQuestionAccess e qid s = Inl (Require ''Not session host'', s)) \<and>
   (msg_sender e \<noteq> host (sessions s sid)
      \<longrightarrow> closeSession e sid s = Inl (Require ''Session does not exist'', s) \<or>
          closeSession e sid s = Inl (Require ''Not session host'', s))"
  by (simp add: answerQuestion_def requestQuestionAccess_def closeSession_def sessionExists_def
      onlyHost_def Let_def)

text \<open>
  Claim C4 in the concrete run: Bob, who is not the host of session 1, is rejected by all
  three operations.
\<close>

theorem host_only_witness:
  "msg_sender (env_of bob 1002) \<noteq> host (sessions state2 (sessionId (questions state2 1))) \<and>
   msg_sender (env_of bob 1002) \<noteq> host (sessions state2 1) \<and>
   answerQuestion (env_of bob 1002) 1 88 [] state2 = Inl (Require ''Not session host'', state2) \<and>
   requestQuestionAccess (env_of bob 1002) 1 state2 = Inl (Require ''Not session host'', state2) \<and>
   closeSession (env_of bob 1002) 1 state2 = Inl (Require ''Not session host'', state2)"
  using host_only [of "env_of bob 1002" state2 1 88 "[]" 1]
  by (simp add: answerQuestion_def requestQuestionAccess_def closeSession_def sessionExists_def
      onlyHost_def Let_def scenario_simps)

text \<open>
  Claim C5. A caller other than the recorded asker of a question is rejected by
  \<^verbatim>\<open>requestAnswerAccess\<close> and by \<^verbatim>\<open>getEncryptedAnswer\<close> for that question; so a call of
  one of the two that succeeds comes from the asker.
\<close>

theorem asker_only:
  "(msg_sender e \<noteq> asker (questions s qid)
      \<longrightarrow> requestAnswerAccess e qid s = Inl (Require ''Invalid question ID'', s) \<or>
          requestAnswerAccess e qid s = Inl (Require ''Not question asker'', s)) \<and>
   (msg_sender e \<noteq> asker (questions s qid)
      \<longrightarrow> getEncryptedAnswer e qid s = Inl (Require ''Invalid question ID'') \<or>
          getEncryptedAnswer e qid s = Inl (Require ''Not question asker''))"
  by (simp add: requestAnswerAccess_def getEncryptedAnswer_def)

text \<open>
  Claim C5 in the concrete run: Alice, who did not ask question 1, is rejected by both
  operations although the question is answered.
\<close>

theorem asker_only_witness:
  "msg_sender (env_of alice 1003) \<noteq> asker (questions state3 1) \<and>
   requestAnswerAccess (env_of alice 1003) 1 state3 =
     Inl (Require ''Not question asker'', state3) \<and>
   getEncryptedAnswer (env_of alice 1003) 1 state3 = Inl (Require ''Not question asker'')"
  using asker_only [of "env_of alice 1003" state3 1]
  by (simp add: requestAnswerAccess_def getEncryptedAnswer_def scenario_simps)

subsection \<open>Rejected calls\<close>

text \<open>
  Claim C8. Whatever the call (\<^verbatim>\<open>createSession\<close>, \<^verbatim>\<open>submitQuestion\<close>,
  \<^verbatim>\<open>answerQuestion\<close>, \<^verbatim>\<open>closeSession\<close>, \<^verbatim>\<open>requestQuestionAccess\<close>,
  \<^verbatim>\<open>requestAnswerAccess\<close>), when it is rejected the ledger after the call is the ledger
  before the call. For a failed \<^verbatim>\<open>require\<close> this does not even depend on the roll-back:
  every \<^verbatim>\<open>require\<close> of the contract runs before the first write, so the storage at the
  point of failure is still the storage before the call.
\<close>

theorem rejected_call_leaves_state:
  "(rejected e c s \<longrightarrow> state_after e c s = s) \<and>
   (\<forall>msg t. body e c s = Inl (Require msg, t) \<longrightarrow> t = s)"
  by (auto simp: rejected_def state_after_def transact_def require_before_effects
      split: sum.splits)

text \<open>
  Claim C8 in the concrete run: Bob's attempt to answer question 1 is rejected and
  changes nothing.
\<close>

theorem rejected_call_leaves_state_witness:
  "rejected (env_of bob 1002) (AnswerQuestion 1 88 []) state2 \<and>
   body (env_of bob 1002) (AnswerQuestion 1 88 []) state2 =
     Inl (Require ''Not session host'', state2) \<and>
   state_after (env_of bob 1002) (AnswerQuestion 1 88 []) state2 = state2"
  using rejected_call_leaves_state [of "env_of bob 1002" "AnswerQuestion 1 88 []" state2]
  by (simp add: rejected_def transact_def nonpayable_def answerQuestion_def Let_def
      scenario_simps)

subsection \<open>Access to answers\<close>

text \<open>
  Claim C9. Called by the recorded asker on an existing question that is not answered,
  \<^verbatim>\<open>requestAnswerAccess\<close> and \<^verbatim>\<open>getEncryptedAnswer\<close> fail with
  \<^verbatim>\<open>Question not answered yet\<close>. And whenever, after some transactions on the deployed
  contract, one of the two succeeds for a question, a successful \<^verbatim>\<open>answerQuestion\<close> for that
  question is among these transactions.
\<close>

theorem answer_access_needs_answer:
  "(0 < qid \<and> qid \<le> questionCount_total s \<and> msg_sender e = asker (questions s qid) \<and>
    \<not> isAnswered (questions s qid)
      \<longrightarrow> requestAnswerAccess e qid s = Inl (Require ''Question not answered yet'', s) \<and>
          getEncryptedAnswer e qid s = Inl (Require ''Question not answered yet'')) \<and>
   (\<not> isl (requestAnswerAccess e qid (run cs deployed)) \<or>
    \<not> isl (getEncryptedAnswer e qid (run cs deployed))
      \<longrightarrow> (\<exists>pre e' enc pf post. cs = pre @ (e', AnswerQuestion qid enc pf) # post \<and>
            \<not> rejected e' (AnswerQuestion qid enc pf) (run pre deployed)))"
proof (intro conjI impI)
  assume "0 < qid \<and> qid \<le> questionCount_total s \<and> msg_sender e = asker (questions s qid) \<and>
    \<not> isAnswered (questions s qid)"
  then show "requestAnswerAccess e qid s = Inl (Require ''Question not answered yet'', s)"
    and "getEncryptedAnswer e qid s = Inl (Require ''Question not answered yet'')"
    by (simp_all add: requestAnswerAccess_def getEncryptedAnswer_def)
next
  assume "\<not> isl (requestAnswerAccess e qid (run cs deployed)) \<or>
    \<not> isl (getEncryptedAnswer e qid (run cs deployed))"
  then have "isAnswered (questions (run cs deployed) qid)"
    by (auto simp: requestAnswerAccess_def getEncryptedAnswer_def split: if_splits)
  then show "\<exists>pre e' enc pf post. cs = pre @ (e', AnswerQuestion qid enc pf) # post \<and>
            \<not> rejected e' (AnswerQuestion qid enc pf) (run pre deployed)"
    by (rule isAnswered_run)
qed

text \<open>
  Claim C9 in the concrete run: before Alice's answer Bob is refused; after it he obtains
  the answer handle, and the run contains the answer.
\<close>

theorem answer_access_needs_answer_witness:
  "0 < (1 :: uint256) \<and> 1 \<le> questionCount_total state2 \<and>
   msg_sender (env_of bob 1002) = asker (questions state2 1) \<and>
   \<not> isAnswered (questions state2 1) \<and>
   requestAnswerAccess (env_of bob 1002) 1 state2 =
     Inl (Require ''Question not answered yet'', state2) \<and>
   getEncryptedAnswer (env_of bob 1002) 1 state2 = Inl (Require ''Question not answered yet'') \<and>
   \<not> isl (requestAnswerAccess (env_of bob 1002) 1 (run scenario deployed)) \<and>
   getEncryptedAnswer (env_of bob 1002) 1 (run scenario deployed) = Inr 88 \<and>
   (\<exists>pre e' enc pf post. scenario = pre @ (e', AnswerQuestion 1 enc pf) # post \<and>
            \<not> rejected e' (AnswerQuestion 1 enc pf) (run pre deployed))"
proof -
  note h = answer_access_needs_answer [of 1 state2 "env_of bob 1002" scenario]
  have a: "\<not> isl (requestAnswerAccess (env_of bob 1002) 1 (run scenario deployed))"
    and b: "getEncryptedAnswer (env_of bob 1002) 1 (run scenario deployed) = Inr 88"
    unfolding run_scenario
    by (simp_all add: requestAnswerAccess_def getEncryptedAnswer_def scenario_simps)
  have c: "0 < (1 :: uint256) \<and> 1 \<le> questionCount_total state2 \<and>
      msg_sender (env_of bob 1002) = asker (questions state2 1) \<and>
      \<not> isAnswered (questions state2 1)"
    by (simp add: scenario_simps)
  from h a c show ?thesis
    using b by blast
qed

subsection \<open>Counts and indexes\<close>

text \<open>
  Claim C10. In every ledger that arises from the deployed contract by transactions, each
  existing session
  has \<open>answeredCount \<le> questionCount\<close>, and its question index has exactly
  \<open>questionCount\<close> entries; and every transaction leads to a ledger where this holds again.
\<close>

theorem counts_invariant:
  "counts_ok (run cs deployed) \<and> (\<forall>e c. counts_ok (state_after e c (run cs deployed)))"
  by (simp add: ledger_inv_counts_ok ledger_inv_run_deployed ledger_inv_step)

text \<open>
  Claim C10 in the concrete run: after Alice's answer, session 1 has one question, one
  answer and one entry in its index.
\<close>

theorem counts_invariant_witness:
  "run scenario deployed = state3 \<and> counts_ok state3 \<and>
   0 < (1 :: uint256) \<and> 1 \<le> sessionCount state3 \<and>
   answeredCount (sessions state3 1) \<le> questionCount (sessions state3 1) \<and>
   length (sessionQuestions state3 1) = unat (questionCount (sessions state3 1))"
  using counts_invariant [of scenario] run_scenario
  by (simp add: scenario_simps)

section \<open>Properties of the text encoding\<close>

subsection \<open>Packing and unpacking bytes\<close>

lemma bit_messageToNumber_loop:
  "bit (messageToNumber_loop bytes i number) m \<longleftrightarrow>
     bit number m \<or>
     (\<exists>j. i \<le> j \<and> j < length bytes \<and> j * 8 \<le> m \<and> bit (uint (bytes ! j)) (m - j * 8))"
proof (induction bytes i number rule: messageToNumber_loop.induct)
  case (1 bytes i number)
  show ?case
  proof (cases "i < length bytes")
    case True
    have "(\<exists>j. i \<le> j \<and> j < length bytes \<and> j * 8 \<le> m \<and> bit (uint (bytes ! j)) (m - j * 8))
        \<longleftrightarrow> (i * 8 \<le> m \<and> bit (uint (bytes ! i)) (m - i * 8)) \<or>
            (\<exists>j. i + 1 \<le> j \<and> j < length bytes \<and> j * 8 \<le> m \<and>
                 bit (uint (bytes ! j)) (m - j * 8))"
      (is "?L \<longleftrightarrow> ?A \<or> ?R")
    proof
      assume ?L
      then obtain j where j: "i \<le> j" "j < length bytes" "j * 8 \<le> m"
        "bit (uint (bytes ! j)) (m - j * 8)" by blast
      show "?A \<or> ?R"
      proof (cases "j = i")
        case True
        then show ?thesis using j by simp
      next
        case False
        then have "i + 1 \<le> j" using j(1) by simp
        then show ?thesis using j by blast
      qed
    next
      assume "?A \<or> ?R"
      then show ?L
      proof
        assume ?A
        then show ?L using True by blast
      next
        assume ?R
        then obtain j where "i + 1 \<le> j" "j < length bytes" "j * 8 \<le> m"
          "bit (uint (bytes ! j)) (m - j * 8)" by blast
        then have "i \<le> j \<and> j < length bytes \<and> j * 8 \<le> m \<and>
          bit (uint (bytes ! j)) (m - j * 8)" by simp
        then show ?L by blast
      qed
    qed
    moreover have "bit (messageToNumber_loop bytes i number) m \<longleftrightarrow>
        bit (number OR push_bit (i * 8) (uint (bytes ! i))) m \<or> ?R"
      using "1.IH" [OF True] True by (subst messageToNumber_loop.simps) simp
    ultimately show ?thesis
      by (auto simp: bit_or_iff bit_push_bit_iff)
  next
    case False
    then show ?thesis by (subst messageToNumber_loop.simps) auto
  qed
qed

lemma bit_uint_byte: "bit (uint (b :: 8 word)) k \<Longrightarrow> k < 8"
  by (simp add: bit_uint_iff)

lemma mask_255: "(0xFF :: int) = mask 8"
  by (simp add: mask_eq_exp_minus_1)

lemma byte_of_packed:
  "drop_bit (i * 8) (messageToNumber_loop bytes 0 0) AND 0xFF =
     (if i < length bytes then uint (bytes ! i) else 0)"
proof (rule bit_eqI)
  fix k
  have "bit (drop_bit (i * 8) (messageToNumber_loop bytes 0 0) AND 0xFF) k \<longleftrightarrow>
      k < 8 \<and> (\<exists>j. j < length bytes \<and> j * 8 \<le> i * 8 + k \<and>
         bit (uint (bytes ! j)) (i * 8 + k - j * 8))"
    unfolding mask_255
    by (auto simp: bit_and_iff bit_mask_iff bit_drop_bit_eq bit_messageToNumber_loop)
  also have "\<dots> \<longleftrightarrow> k < 8 \<and> i < length bytes \<and> bit (uint (bytes ! i)) k"
  proof (intro conj_cong refl iffI)
    assume k: "k < 8" and "\<exists>j. j < length bytes \<and> j * 8 \<le> i * 8 + k \<and>
         bit (uint (bytes ! j)) (i * 8 + k - j * 8)"
    then obtain j where j: "j < length bytes" "j * 8 \<le> i * 8 + k"
      "bit (uint (bytes ! j)) (i * 8 + k - j * 8)" by blast
    from bit_uint_byte [OF j(3)] j(2) k have "j = i" by arith
    then show "i < length bytes \<and> bit (uint (bytes ! i)) k" using j by simp
  next
    assume "k < 8" and "i < length bytes \<and> bit (uint (bytes ! i)) k"
    then have "i < length bytes \<and> i * 8 \<le> i * 8 + k \<and>
         bit (uint (bytes ! i)) (i * 8 + k - i * 8)" by simp
    then show "\<exists>j. j < length bytes \<and> j * 8 \<le> i * 8 + k \<and>
         bit (uint (bytes ! j)) (i * 8 + k - j * 8)" by blast
  qed
  also have "\<dots> \<longleftrightarrow> bit (if i < length bytes then uint (bytes ! i) else 0) k"
    by (auto dest: bit_uint_byte)
  finally show "bit (drop_bit (i * 8) (messageToNumber_loop bytes 0 0) AND 0xFF) k \<longleftrightarrow>
      bit (if i < length bytes then uint (bytes ! i) else 0) k" .
qed

lemma numberToMessage_loop_packed:
  assumes len: "length bytes \<le> 16" and nz: "0 \<notin> set bytes"
  shows "i \<le> length bytes \<Longrightarrow>
     numberToMessage_loop (messageToNumber_loop bytes 0 0) i acc =
       acc @ map uint (drop i bytes)"
proof (induction "length bytes - i" arbitrary: i acc)
  case 0
  then have i: "i = length bytes" by simp
  show ?case
    using len by (subst numberToMessage_loop.simps) (simp add: byte_of_packed i)
next
  case (Suc n)
  then have i: "i < length bytes" by simp
  then have "bytes ! i \<noteq> 0" using nz by (metis nth_mem)
  then have b: "uint (bytes ! i) \<noteq> 0" by (simp add: uint_0_iff)
  have "numberToMessage_loop (messageToNumber_loop bytes 0 0) (i + 1) (acc @ [uint (bytes ! i)]) =
      (acc @ [uint (bytes ! i)]) @ map uint (drop (i + 1) bytes)"
    using Suc.hyps(2) i by (intro Suc.hyps(1)) simp_all
  also have "\<dots> = acc @ map uint (drop i bytes)"
    using i by (simp add: Cons_nth_drop_Suc [symmetric])
  finally show ?case
    using i len b by (subst numberToMessage_loop.simps) (simp add: byte_of_packed Let_def)
qed

lemma unpack_pack:
  assumes "length bytes \<le> 16" and "0 \<notin> set bytes"
  shows "map of_int (numberToMessage_loop (messageToNumber_loop bytes 0 0) 0 []) = bytes"
  using numberToMessage_loop_packed [OF assms, of 0 "[]"]
  by (simp add: comp_def map_idI)

text \<open>
  A text of at most 16 bytes does fit into 128 bits.
\<close>

lemma messageToNumber_loop_nonneg:
  "0 \<le> number \<Longrightarrow> 0 \<le> messageToNumber_loop bytes i number"
proof (induction bytes i number rule: messageToNumber_loop.induct)
  case (1 bytes i number)
  show ?case
  proof (cases "i < length bytes")
    case True
    have "0 \<le> number OR push_bit (i * 8) (uint (bytes ! i))"
      using "1.prems" by simp
    then show ?thesis
      using "1.IH" [OF True] True by (subst messageToNumber_loop.simps) simp
  next
    case False
    then show ?thesis
      using "1.prems" by (subst messageToNumber_loop.simps) simp
  qed
qed

lemma messageToNumber_loop_bound:
  assumes "length bytes \<le> n"
  shows "messageToNumber_loop bytes 0 0 < 2 ^ (8 * n)"
proof -
  let ?N = "messageToNumber_loop bytes 0 0"
  have "take_bit (8 * n) ?N = ?N"
  proof (rule bit_eqI)
    fix m
    have "m < 8 * n" if "bit ?N m"
    proof -
      from that obtain j where j: "j < length bytes" "j * 8 \<le> m"
        "bit (uint (bytes ! j)) (m - j * 8)"
        by (auto simp: bit_messageToNumber_loop)
      from bit_uint_byte [OF j(3)] j(1,2) assms show ?thesis by linarith
    qed
    then show "bit (take_bit (8 * n) ?N) m \<longleftrightarrow> bit ?N m"
      by (auto simp: bit_take_bit_iff)
  qed
  then show ?thesis
    by (metis take_bit_int_less_exp)
qed

lemma messageToNumber_fits:
  assumes "length (TextEncoder_encode message) \<le> 16"
    and "messageToNumber message = Inr number"
  shows "0 \<le> number \<and> number < 2 ^ 128"
proof -
  have "number = messageToNumber_loop (TextEncoder_encode message) 0 0"
    using assms(2) by (simp add: messageToNumber_def split: if_splits)
  then show ?thesis
    using messageToNumber_loop_bound [OF assms(1)]
      messageToNumber_loop_nonneg [of 0 "TextEncoder_encode message" 0]
    by simp
qed

subsection \<open>UTF-8\<close>

lemma unat_byte: "x < 256 \<Longrightarrow> unat (of_nat x :: 8 word) = x"
  by (simp add: unat_of_nat)

lemma mod_offset:
  fixes r :: nat
  assumes "r < n"
  shows "(k * n + r) mod n = r"
  using assms by simp

lemma lead_32: "(q::nat) < 32 \<Longrightarrow> (192 + q) mod 32 = q"
  using mod_offset [of q 32 6] by simp

lemma lead_16: "(q::nat) < 16 \<Longrightarrow> (224 + q) mod 16 = q"
  using mod_offset [of q 16 14] by simp

lemma lead_8: "(q::nat) < 8 \<Longrightarrow> (240 + q) mod 8 = q"
  using mod_offset [of q 8 30] by simp

lemma cont_64: "(r::nat) < 64 \<Longrightarrow> (128 + r) mod 64 = r"
  using mod_offset [of r 64 2] by simp

lemma mod_window:
  fixes x :: nat
  assumes "a * n \<le> x" "x < a * n + n"
  shows "x mod n = x - a * n"
  by (metis add_diff_inverse_nat assms(1,2) ex_least_nat_le le_refl mod_less
    mod_mult_self3 nat_add_left_cancel_less nat_less_le)

text \<open>One continuation byte, read by a decoder that waits for it.\<close>

lemma utf8_decode_continue:
  assumes "bytes_needed d \<noteq> 0" "lower_boundary d \<le> 128 + r" "128 + r \<le> upper_boundary d"
    "r < 64"
  shows "utf8_decode d (of_nat (128 + r) # bs) =
     (if bytes_seen d + 1 \<noteq> bytes_needed d
      then utf8_decode (d\<lparr>lower_boundary := 0x80, upper_boundary := 0xBF,
             code_point := code_point d * 64 + r, bytes_seen := bytes_seen d + 1\<rparr>) bs
      else (code_point d * 64 + r) # utf8_decode utf8_decoder_init bs)"
proof -
  have u: "unat (of_nat (128 + r) :: 8 word) = 128 + r"
    using assms(4) by (intro unat_byte) simp
  show ?thesis
    using assms by (subst utf8_decode.simps) (simp add: u Let_def cont_64 del: of_nat_add)
qed

lemma utf8_decode_1:
  assumes "c < 0x80"
  shows "utf8_decode utf8_decoder_init (utf8_encode_code_point c @ bs) =
     c # utf8_decode utf8_decoder_init bs"
proof -
  have e: "utf8_encode_code_point c = [of_nat c]"
    using assms by (simp add: utf8_encode_code_point_def)
  have u: "unat (of_nat c :: 8 word) = c"
    using assms by (simp add: unat_byte)
  show ?thesis
    unfolding e using assms
    by (simp add: utf8_decode.simps utf8_decoder_init_def u Let_def)
qed

lemma utf8_decode_2:
  assumes "0x80 \<le> c" "c < 0x800"
  shows "utf8_decode utf8_decoder_init (utf8_encode_code_point c @ bs) =
     c # utf8_decode utf8_decoder_init bs"
proof -
  define x1 where "x1 = c div 64"
  define r0 where "r0 = c mod 64"
  have c: "x1 * 64 + r0 = c" by (simp add: x1_def r0_def)
  have r: "r0 < 64" by (simp add: r0_def)
  have x: "2 \<le> x1" "x1 < 32" using assms unfolding x1_def by linarith+
  have e: "utf8_encode_code_point c = [of_nat (192 + x1), of_nat (128 + r0)]"
    using assms by (simp add: utf8_encode_code_point_def x1_def r0_def)
  have u: "unat (of_nat (192 + x1) :: 8 word) = 192 + x1"
    using x by (intro unat_byte) simp
  have s1: "utf8_decode utf8_decoder_init (of_nat (192 + x1) # of_nat (128 + r0) # bs) =
      utf8_decode (utf8_decoder_init\<lparr>bytes_needed := 1, code_point := x1\<rparr>)
        (of_nat (128 + r0) # bs)"
    using x by (subst utf8_decode.simps) (simp add: utf8_decoder_init_def u Let_def lead_32 del: of_nat_add)
  show ?thesis
    unfolding e using r c
    by (simp only: append_Cons append_Nil s1)
      (simp add: utf8_decode_continue utf8_decoder_init_def del: of_nat_add)
qed

lemma utf8_decode_3:
  assumes "0x800 \<le> c" "c < 0x10000" "\<not> (0xD800 \<le> c \<and> c \<le> 0xDFFF)"
  shows "utf8_decode utf8_decoder_init (utf8_encode_code_point c @ bs) =
     c # utf8_decode utf8_decoder_init bs"
proof -
  define x1 where "x1 = c div 64"
  define r0 where "r0 = c mod 64"
  define x2 where "x2 = x1 div 64"
  define r1 where "r1 = x1 mod 64"
  have c: "x1 * 64 + r0 = c" "x2 * 64 + r1 = x1"
    by (simp_all add: x1_def r0_def x2_def r1_def)
  have r: "r0 < 64" "r1 < 64" by (simp_all add: r0_def r1_def)
  have x2: "x2 = c div 4096" by (simp add: x2_def x1_def)
  have x: "x2 < 16" using assms unfolding x2 by linarith
  have lo: "x2 = 0 \<Longrightarrow> 32 \<le> r1"
    using assms(1) unfolding x2 r1_def x1_def by force
  have hi: "r1 < 32" if "x2 = 13"
  proof -
    have "13 * 64 \<le> c div 64 \<and> c div 64 < 13 * 64 + 32"
      using that assms(3) unfolding x2 by force
    then have "13 * 64 \<le> x1" "x1 < 13 * 64 + 64" "x1 < 13 * 64 + 32"
      by (simp_all add: x1_def)
    then show ?thesis
      unfolding r1_def using mod_window [of 13 64 x1] by simp
  qed
  have e: "utf8_encode_code_point c =
      [of_nat (224 + x2), of_nat (128 + r1), of_nat (128 + r0)]"
    using assms by (simp add: utf8_encode_code_point_def x2 x1_def r0_def r1_def)
  have u: "unat (of_nat (224 + x2) :: 8 word) = 224 + x2"
    using x by (intro unat_byte) simp
  define d where "d = utf8_decoder_init\<lparr>
      lower_boundary := (if x2 = 0 then 0xA0 else 0x80),
      upper_boundary := (if x2 = 13 then 0x9F else 0xBF),
      bytes_needed := 2, code_point := x2\<rparr>"
  have s1: "utf8_decode utf8_decoder_init (of_nat (224 + x2) # bs') = utf8_decode d bs'" for bs'
    using x by (subst utf8_decode.simps) (simp add: utf8_decoder_init_def u Let_def lead_16 d_def del: of_nat_add)
  have s2: "utf8_decode d (of_nat (128 + r1) # bs') =
      utf8_decode (utf8_decoder_init\<lparr>bytes_needed := 2, code_point := x1, bytes_seen := 1\<rparr>) bs'"
    for bs'
    using r lo hi c
    by (subst utf8_decode_continue) (auto simp: d_def utf8_decoder_init_def simp del: of_nat_add)
  have s3: "utf8_decode (utf8_decoder_init\<lparr>bytes_needed := 2, code_point := x1, bytes_seen := 1\<rparr>)
      (of_nat (128 + r0) # bs') = c # utf8_decode utf8_decoder_init bs'" for bs'
    using r c
    by (subst utf8_decode_continue) (auto simp: utf8_decoder_init_def simp del: of_nat_add)
  show ?thesis
    unfolding e by (simp only: append_Cons append_Nil s1 s2 s3)
qed

lemma utf8_decode_4:
  assumes "0x10000 \<le> c" "c < 0x110000"
  shows "utf8_decode utf8_decoder_init (utf8_encode_code_point c @ bs) =
     c # utf8_decode utf8_decoder_init bs"
proof -
  define x1 where "x1 = c div 64"
  define r0 where "r0 = c mod 64"
  define x2 where "x2 = x1 div 64"
  define r1 where "r1 = x1 mod 64"
  define x3 where "x3 = x2 div 64"
  define r2 where "r2 = x2 mod 64"
  have c: "x1 * 64 + r0 = c" "x2 * 64 + r1 = x1" "x3 * 64 + r2 = x2"
    by (simp_all add: x1_def r0_def x2_def r1_def x3_def r2_def)
  have r: "r0 < 64" "r1 < 64" "r2 < 64" by (simp_all add: r0_def r1_def r2_def)
  have x2: "x2 = c div 4096" by (simp add: x2_def x1_def)
  have x3: "x3 = c div 262144" by (simp add: x3_def x2_def x1_def)
  have x: "x3 \<le> 4" using assms unfolding x3 by linarith
  have lo: "x3 = 0 \<Longrightarrow> 16 \<le> r2"
    using assms(1) unfolding x3 r2_def x2 by fastforce
  have hi: "r2 < 16" if "x3 = 4"
  proof -
    have "4 * 64 \<le> c div 4096 \<and> c div 4096 < 4 * 64 + 16"
      using that assms(2) unfolding x3 by force
    then have "4 * 64 \<le> x2" "x2 < 4 * 64 + 64" "x2 < 4 * 64 + 16"
      by (simp_all add: x2)
    then show ?thesis
      unfolding r2_def using mod_window [of 4 64 x2] by simp
  qed
  have e: "utf8_encode_code_point c =
      [of_nat (240 + x3), of_nat (128 + r2), of_nat (128 + r1), of_nat (128 + r0)]"
    using assms by (simp add: utf8_encode_code_point_def x3 x2 x1_def r0_def r1_def r2_def)
  have u: "unat (of_nat (240 + x3) :: 8 word) = 240 + x3"
    using x by (intro unat_byte) simp
  define d where "d = utf8_decoder_init\<lparr>
      lower_boundary := (if x3 = 0 then 0x90 else 0x80),
      upper_boundary := (if x3 = 4 then 0x8F else 0xBF),
      bytes_needed := 3, code_point := x3\<rparr>"
  have s1: "utf8_decode utf8_decoder_init (of_nat (240 + x3) # bs') = utf8_decode d bs'" for bs'
    using x by (subst utf8_decode.simps) (simp add: utf8_decoder_init_def u Let_def lead_8 d_def del: of_nat_add)
  have s2: "utf8_decode d (of_nat (128 + r2) # bs') =
      utf8_decode (utf8_decoder_init\<lparr>bytes_needed := 3, code_point := x2, bytes_seen := 1\<rparr>) bs'"
    for bs'
    using r lo hi c
    by (subst utf8_decode_continue) (auto simp: d_def utf8_decoder_init_def simp del: of_nat_add)
  have s3: "utf8_decode (utf8_decoder_init\<lparr>bytes_needed := 3, code_point := x2, bytes_seen := 1\<rparr>)
      (of_nat (128 + r1) # bs') =
      utf8_decode (utf8_decoder_init\<lparr>bytes_needed := 3, code_point := x1, bytes_seen := 2\<rparr>) bs'"
    for bs'
    using r c
    by (subst utf8_decode_continue)
      (auto simp: utf8_decoder_init_def numeral_2_eq_2 simp del: of_nat_add)
  have s4: "utf8_decode (utf8_decoder_init\<lparr>bytes_needed := 3, code_point := x1, bytes_seen := 2\<rparr>)
      (of_nat (128 + r0) # bs') = c # utf8_decode utf8_decoder_init bs'" for bs'
    using r c
    by (subst utf8_decode_continue)
      (auto simp: utf8_decoder_init_def numeral_2_eq_2 simp del: of_nat_add)
  show ?thesis
    unfolding e by (simp only: append_Cons append_Nil s1 s2 s3 s4)
qed

lemma utf8_decode_code_point:
  assumes "is_scalar_value c"
  shows "utf8_decode utf8_decoder_init (utf8_encode_code_point c @ bs) =
     c # utf8_decode utf8_decoder_init bs"
proof -
  consider "c < 0x80" | "0x80 \<le> c" "c < 0x800" | "0x800 \<le> c" "c < 0x10000"
    | "0x10000 \<le> c" by linarith
  then show ?thesis
    using assms
    by cases (simp_all add: utf8_decode_1 utf8_decode_2 utf8_decode_3 utf8_decode_4
        is_scalar_value_def)
qed

lemma utf8_decode_Nil: "utf8_decode utf8_decoder_init [] = []"
  by (simp add: utf8_decode.simps utf8_decoder_init_def)

lemma utf8_decode_encode:
  "list_all is_scalar_value cs \<Longrightarrow>
     utf8_decode utf8_decoder_init (concat (map utf8_encode_code_point cs)) = cs"
  by (induction cs) (simp_all add: utf8_decode_code_point utf8_decode_Nil)

text \<open>The bytes of an encoded code point, as numbers.\<close>

lemma utf8_bytes_unat:
  assumes "c < 0x110000"
  shows "map unat (utf8_encode_code_point c) =
     (if c < 0x80 then [c]
      else if c < 0x800 then [192 + c div 64, 128 + c mod 64]
      else if c < 0x10000 then [224 + c div 4096, 128 + c div 64 mod 64, 128 + c mod 64]
      else [240 + c div 262144, 128 + c div 4096 mod 64, 128 + c div 64 mod 64,
            128 + c mod 64])"
proof -
  have m: "128 + x mod 64 < 256" for x :: nat
    using mod_less_divisor [of 64 x] by linarith
  have u: "unat (of_nat (128 + x mod 64) :: 8 word) = 128 + x mod 64" for x :: nat
    by (rule unat_byte) (rule m)
  consider "c < 0x80" | "0x80 \<le> c" "c < 0x800" | "0x800 \<le> c" "c < 0x10000"
    | "0x10000 \<le> c" by linarith
  then show ?thesis
  proof cases
    case 1
    then show ?thesis by (simp add: utf8_encode_code_point_def unat_byte)
  next
    case 2
    then have "192 + c div 64 < 256" by linarith
    then have "unat (of_nat (192 + c div 64) :: 8 word) = 192 + c div 64"
      by (rule unat_byte)
    then show ?thesis
      using 2 u by (simp add: utf8_encode_code_point_def del: of_nat_add)
  next
    case 3
    then have "224 + c div 4096 < 256" by linarith
    then have "unat (of_nat (224 + c div 4096) :: 8 word) = 224 + c div 4096"
      by (rule unat_byte)
    then show ?thesis
      using 3 u by (simp add: utf8_encode_code_point_def del: of_nat_add)
  next
    case 4
    then have "240 + c div 262144 < 256" using assms by linarith
    then have "unat (of_nat (240 + c div 262144) :: 8 word) = 240 + c div 262144"
      by (rule unat_byte)
    then show ?thesis
      using 4 u by (simp add: utf8_encode_code_point_def del: of_nat_add)
  qed
qed

lemma utf8_no_zero_byte:
  assumes "c < 0x110000" "c \<noteq> 0"
  shows "0 \<notin> set (utf8_encode_code_point c)"
proof
  assume "0 \<in> set (utf8_encode_code_point c)"
  then have "unat (0 :: 8 word) \<in> set (map unat (utf8_encode_code_point c))"
    by (simp only: set_map) (rule imageI)
  then show False
    using assms(2) unfolding utf8_bytes_unat [OF assms(1)]
    by (simp split: if_splits)
qed

lemma utf8_no_bom:
  assumes "c < 0x110000" "c \<noteq> 0xFEFF"
  shows "take 3 (utf8_encode_code_point c @ bs) \<noteq> [0xEF, 0xBB, 0xBF]"
proof
  assume "take 3 (utf8_encode_code_point c @ bs) = [0xEF, 0xBB, 0xBF]"
  then have "map unat (take 3 (utf8_encode_code_point c @ bs)) = map unat [0xEF, 0xBB, 0xBF :: 8 word]"
    by simp
  then have t: "take 3 (map unat (utf8_encode_code_point c) @ map unat bs) = [239, 187, 191]"
    by (simp add: take_map)
  consider "c < 0x80" | "0x80 \<le> c" "c < 0x800" | "0x800 \<le> c" "c < 0x10000"
    | "0x10000 \<le> c" by linarith
  then show False
  proof cases
    case 1
    then show ?thesis using t unfolding utf8_bytes_unat [OF assms(1)] by simp
  next
    case 2
    then have "c div 64 < 32" by linarith
    then show ?thesis using 2 t unfolding utf8_bytes_unat [OF assms(1)] by simp
  next
    case 3
    then have "c div 4096 = 15" "c div 64 mod 64 = 59" "c mod 64 = 63"
      using t unfolding utf8_bytes_unat [OF assms(1)] by simp_all
    moreover have "c = (c div 4096 * 64 + c div 64 mod 64) * 64 + c mod 64"
      by (simp add: div_mult2_eq [of c 64 64, simplified])
    ultimately show ?thesis using assms(2) by simp
  next
    case 4
    then show ?thesis using t unfolding utf8_bytes_unat [OF assms(1)] by simp
  qed
qed

lemma utf8_length:
  "1 \<le> length (utf8_encode_code_point c)"
  "0x10000 \<le> c \<Longrightarrow> length (utf8_encode_code_point c) = 4"
  by (simp_all add: utf8_encode_code_point_def)

subsection \<open>UTF-16\<close>

lemma surrogate_unat:
  "is_lead_surrogate u \<longleftrightarrow> 0xD800 \<le> unat u \<and> unat u \<le> 0xDBFF"
  "is_trail_surrogate u \<longleftrightarrow> 0xDC00 \<le> unat u \<and> unat u \<le> 0xDFFF"
  by (simp_all add: is_lead_surrogate_def is_trail_surrogate_def word_le_nat_alt)

lemma unat_code_unit: "unat (u :: 16 word) < 0x10000"
  using unsigned_less [of u, where ?'a = nat] by simp

lemma lone_code_unit_ok:
  assumes "\<not> is_lead_surrogate u" "\<not> is_trail_surrogate u"
  shows "lone_code_unit u = unat u" "is_scalar_value (unat u)"
    "utf16_encode_code_point (unat u) = [u]"
  using assms unat_code_unit [of u]
  by (auto simp: lone_code_unit_def is_scalar_value_def utf16_encode_code_point_def
      surrogate_unat)

lemma pair_ok:
  assumes "is_lead_surrogate u" "is_trail_surrogate v"
  defines "c \<equiv> 0x10000 + (unat u - 0xD800) * 0x400 + (unat v - 0xDC00)"
  shows "is_scalar_value c" "0x10000 \<le> c" "utf16_encode_code_point c = [u, v]"
proof -
  define a where "a = unat u - 0xD800"
  define b where "b = unat v - 0xDC00"
  have a: "a < 0x400" "0xD800 + a = unat u"
    using assms(1) by (auto simp: a_def surrogate_unat)
  have b: "b < 0x400" "0xDC00 + b = unat v"
    using assms(2) by (auto simp: b_def surrogate_unat)
  have c: "c = 0x10000 + a * 0x400 + b" by (simp add: c_def a_def b_def)
  show "0x10000 \<le> c" by (simp add: c)
  show "is_scalar_value c" using a b by (simp add: c is_scalar_value_def)
  have "(c - 0x10000) div 0x400 = a" "(c - 0x10000) mod 0x400 = b"
    using b by (simp_all add: c)
  then have "utf16_encode_code_point c = [of_nat (0xD800 + a), of_nat (0xDC00 + b)]"
    by (simp add: utf16_encode_code_point_def c del: of_nat_add)
  then show "utf16_encode_code_point c = [u, v]"
    by (simp only: a b of_nat_unat unsigned_word_eqI) simp
qed

lemma well_formed_scalar_values:
  "well_formed s \<Longrightarrow> list_all is_scalar_value (scalar_values s) \<and>
     concat (map utf16_encode_code_point (scalar_values s)) = s"
proof (induction s rule: scalar_values.induct)
  case 1
  then show ?case by simp
next
  case (2 u)
  then show ?case by (simp add: lone_code_unit_ok)
next
  case (3 u v vs)
  show ?case
  proof (cases "is_lead_surrogate u \<and> is_trail_surrogate v")
    case True
    then have "well_formed vs" using "3.prems" by simp
    then show ?thesis using True "3.IH"(1) by (simp add: pair_ok)
  next
    case False
    then have u: "\<not> is_lead_surrogate u" "\<not> is_trail_surrogate u"
      and wf: "well_formed (v # vs)"
      using "3.prems" by (simp_all split: if_splits)
    have sv: "scalar_values (u # v # vs) = unat u # scalar_values (v # vs)"
      using u by (simp add: lone_code_unit_ok(1))
    show ?thesis
      unfolding sv using "3.IH"(2) [OF False wf] u
      by (simp add: lone_code_unit_ok)
  qed
qed

lemma lone_code_unit_bound: "lone_code_unit u < 0x10000"
  using unat_code_unit [of u] by (simp add: lone_code_unit_def)

lemma lone_code_unit_zero: "u \<noteq> 0 \<Longrightarrow> lone_code_unit u \<noteq> 0"
  by (simp add: lone_code_unit_def unat_gt_0)

lemma pair_bound:
  assumes "is_lead_surrogate u" "is_trail_surrogate v"
  shows "0x10000 + (unat u - 0xD800) * 0x400 + (unat v - 0xDC00) < 0x110000"
  using pair_ok(1) [OF assms] by (simp add: is_scalar_value_def)

lemma encode_no_zero_byte:
  "0 \<notin> set message \<Longrightarrow> 0 \<notin> set (TextEncoder_encode message)"
proof (induction message rule: scalar_values.induct)
  case 1
  then show ?case by (simp add: TextEncoder_encode_def)
next
  case (2 u)
  then show ?case
    using lone_code_unit_bound [of u]
    by (simp add: TextEncoder_encode_def utf8_no_zero_byte lone_code_unit_zero)
next
  case (3 u v vs)
  show ?case
  proof (cases "is_lead_surrogate u \<and> is_trail_surrogate v")
    case True
    then have "0 \<notin> set (TextEncoder_encode vs)" using 3 by simp
    then show ?thesis
      using True pair_bound [of u v]
      by (simp add: TextEncoder_encode_def utf8_no_zero_byte)
  next
    case False
    then have "0 \<notin> set (TextEncoder_encode (v # vs))" using 3 by simp
    moreover have "scalar_values (u # v # vs) = lone_code_unit u # scalar_values (v # vs)"
      using False by auto
    ultimately show ?thesis
      using "3.prems" lone_code_unit_bound [of u]
      by (simp add: TextEncoder_encode_def utf8_no_zero_byte lone_code_unit_zero
          del: scalar_values.simps)
  qed
qed

lemma encode_length: "length message \<le> length (TextEncoder_encode message)"
proof (induction message rule: scalar_values.induct)
  case 1
  then show ?case by simp
next
  case (2 u)
  then show ?case
    using utf8_length(1) [of "lone_code_unit u"] by (simp add: TextEncoder_encode_def)
next
  case (3 u v vs)
  show ?case
  proof (cases "is_lead_surrogate u \<and> is_trail_surrogate v")
    case True
    then show ?thesis
      using "3.IH"(1) pair_ok(2) [of u v]
      by (simp add: TextEncoder_encode_def utf8_length(2))
  next
    case False
    moreover have "scalar_values (u # v # vs) = lone_code_unit u # scalar_values (v # vs)"
      using False by auto
    ultimately show ?thesis
      using "3.IH"(2) utf8_length(1) [of "lone_code_unit u"]
      by (simp add: TextEncoder_encode_def del: scalar_values.simps)
  qed
qed

lemma encode_no_bom:
  assumes "take 1 message \<noteq> [0xFEFF]"
  shows "take 3 (TextEncoder_encode message) \<noteq> [0xEF, 0xBB, 0xBF]"
proof (cases message rule: scalar_values.cases)
  case 1
  then show ?thesis by (simp add: TextEncoder_encode_def)
next
  case (2 u)
  then have "u \<noteq> 0xFEFF" using assms by simp
  then have "lone_code_unit u \<noteq> 0xFEFF"
    by (auto simp: lone_code_unit_def word_unat_eq_iff)
  then show ?thesis
    using utf8_no_bom [of "lone_code_unit u" "[]"] lone_code_unit_bound [of u] 2
    by (simp add: TextEncoder_encode_def)
next
  case (3 u v vs)
  then have u: "u \<noteq> 0xFEFF" using assms by simp
  show ?thesis
  proof (cases "is_lead_surrogate u \<and> is_trail_surrogate v")
    case True
    then show ?thesis
      using utf8_no_bom [of "0x10000 + (unat u - 0xD800) * 0x400 + (unat v - 0xDC00)"]
        pair_bound [of u v] 3
      by (simp add: TextEncoder_encode_def)
  next
    case False
    have "lone_code_unit u \<noteq> 0xFEFF"
      using u by (auto simp: lone_code_unit_def word_unat_eq_iff)
    moreover have "scalar_values (u # v # vs) = lone_code_unit u # scalar_values (v # vs)"
      using False by auto
    ultimately show ?thesis
      using utf8_no_bom [of "lone_code_unit u"] lone_code_unit_bound [of u] 3
      by (simp add: TextEncoder_encode_def del: scalar_values.simps)
  qed
qed

subsection \<open>The three texts, evaluated\<close>

lemmas encode_simps = TextEncoder_encode_def utf8_encode_code_point_def lone_code_unit_def
  is_lead_surrogate_def is_trail_surrogate_def

lemma encode_nul: "TextEncoder_encode text_with_nul = [0x61, 0, 0x62]"
  by (simp add: text_with_nul_def encode_simps)

lemma pack_nul: "messageToNumber_loop [0x61, 0, 0x62] 0 0 = 6422625"
  by (simp add: messageToNumber_loop.simps nth_Cons')

lemma unpack_nul: "numberToMessage_loop 6422625 0 [] = [0x61]"
  by (simp add: numberToMessage_loop.simps Let_def)

lemma encode_euros:
  "TextEncoder_encode text_euros =
     [226, 130, 172, 226, 130, 172, 226, 130, 172, 226, 130, 172, 226, 130, 172, 226, 130, 172]"
  by (simp add: text_euros_def encode_simps)

lemma encode_mixed:
  "TextEncoder_encode text_mixed = [72, 195, 169, 226, 130, 172, 240, 159, 152, 128]"
  by (simp add: text_mixed_def encode_simps)

section \<open>The claims about the text encoding\<close>

text \<open>
  Claim C6, as amended. Let a text be well formed (no unpaired surrogate), contain no NUL
  character and not begin with U+FEFF, and let its UTF-8 encoding have at most 16 bytes.
  Then \<^verbatim>\<open>messageToNumber\<close> accepts it, and \<^verbatim>\<open>numberToMessage\<close> turns the resulting
  integer back into the same text, code unit by code unit.
\<close>

theorem round_trip:
  assumes wf: "well_formed message" and nz: "0 \<notin> set message"
    and bom: "take 1 message \<noteq> [0xFEFF]"
    and len: "length (TextEncoder_encode message) \<le> 16"
  shows "\<exists>number. messageToNumber message = Inr number \<and> numberToMessage number = message"
proof -
  let ?bytes = "TextEncoder_encode message"
  let ?number = "messageToNumber_loop ?bytes 0 0"
  have "length message \<le> 16" using encode_length [of message] len by simp
  then have 1: "messageToNumber message = Inr ?number"
    by (simp add: messageToNumber_def)
  have 2: "map of_int (numberToMessage_loop ?number 0 []) = ?bytes"
    by (rule unpack_pack [OF len encode_no_zero_byte [OF nz]])
  have 3: "utf8_decode utf8_decoder_init ?bytes = scalar_values message"
    unfolding TextEncoder_encode_def
    by (rule utf8_decode_encode) (simp add: well_formed_scalar_values [OF wf])
  have "numberToMessage ?number = message"
    using encode_no_bom [OF bom] well_formed_scalar_values [OF wf]
    by (simp add: numberToMessage_def TextDecoder_decode_def 2 3)
  with 1 show ?thesis by blast
qed

text \<open>
  The amended claim C6 at work on a text of four characters, ten bytes in UTF-8.
\<close>

theorem round_trip_witness:
  "well_formed text_mixed \<and> 0 \<notin> set text_mixed \<and> take 1 text_mixed \<noteq> [0xFEFF] \<and>
   length (TextEncoder_encode text_mixed) \<le> 16 \<and>
   (\<exists>number. messageToNumber text_mixed = Inr number \<and> numberToMessage number = text_mixed)"
proof -
  have h: "well_formed text_mixed" "0 \<notin> set text_mixed" "take 1 text_mixed \<noteq> [0xFEFF]"
    by (simp_all add: text_mixed_def is_lead_surrogate_def is_trail_surrogate_def)
  have l: "length (TextEncoder_encode text_mixed) \<le> 16"
    by (simp add: encode_mixed)
  from round_trip [OF h l] h l show ?thesis by blast
qed

text \<open>
  Claim C6 as stated covers every text of at most 16 characters. The text of three
  characters \<^verbatim>\<open>a\<close>, NUL, \<^verbatim>\<open>b\<close> comes back as \<^verbatim>\<open>a\<close> alone: \<^verbatim>\<open>numberToMessage\<close>
  stops at the first zero byte.
\<close>

theorem round_trip_counterexample:
  "length text_with_nul \<le> 16 \<and> messageToNumber text_with_nul = Inr 6422625 \<and>
   numberToMessage 6422625 = [0x61] \<and> numberToMessage 6422625 \<noteq> text_with_nul"
  by (simp add: messageToNumber_def encode_nul pack_nul numberToMessage_def unpack_nul
      TextDecoder_decode_def utf8_decode.simps utf8_decoder_init_def
      utf16_encode_code_point_def)
    (simp add: text_with_nul_def)

text \<open>
  Claim C7 on the text of six euro signs. \<^verbatim>\<open>messageToNumber\<close> compares the number of
  characters with 16, not the number of bytes: it accepts the six characters, packs their
  18 bytes, and returns an integer that does not fit into 128 bits.
\<close>

theorem messageToNumber_exceeds_128_bits:
  "length text_euros \<le> 16 \<and> length (TextEncoder_encode text_euros) = 18 \<and>
   messageToNumber text_euros = Inr 15027851189219263685302601594105102389248738 \<and>
   (2 :: int) ^ 128 \<le> 15027851189219263685302601594105102389248738"
  by (simp add: messageToNumber_def encode_euros messageToNumber_loop.simps nth_Cons')
    (simp add: text_euros_def)

end
